theory Spec2Isabelle
  imports Complex_Main "HOL-Library.AList" "HOL-Library.Sublist" "HOL-Library.Multiset"
    "HOL-Library.Log_Nat"
begin

section \<open>The semantic index of the registry (registry/search/service.py)\<close>

text \<open>
  A shallow embedding of \<^verbatim>\<open>FaissService\<close>. Python dictionaries with a fixed set of
  keys are records whose fields are options (\<open>None\<close>: the key is absent, so
  \<^verbatim>\<open>d.get(k, default)\<close> yields the default); a key that is present holds a value of its
  declared type. The metadata store is an insertion-ordered dictionary and is modelled as
  an association list: \<open>map_of\<close> is \<^verbatim>\<open>get\<close>, \<open>AList.update\<close> is item assignment
  (in place for an existing key, appended for a new one) and \<open>AList.delete\<close> is
  \<^verbatim>\<open>del\<close>. Strings are lists of characters with code points below 256. Logging is
  not part of the state.
\<close>

subsection \<open>Strings\<close>

definition is_space :: "char \<Rightarrow> bool" where
  \<comment> \<open>\<^verbatim>\<open>str.isspace\<close> on the code points below 256\<close>
  "is_space c = (of_char c \<in> {9, 10, 11, 12, 13, 28, 29, 30, 31, 32, 133, 160 :: nat})"

definition strip :: "string \<Rightarrow> string" where
  \<comment> \<open>\<^verbatim>\<open>str.strip()\<close>\<close>
  "strip s = rev (dropWhile is_space (rev (dropWhile is_space s)))"

fun join :: "string \<Rightarrow> string list \<Rightarrow> string" where
  \<comment> \<open>\<^verbatim>\<open>sep.join(xs)\<close>\<close>
  "join sep [] = []"
| "join sep [x] = x"
| "join sep (x # y # ys) = x @ sep @ join sep (y # ys)"

definition truthy :: "string option \<Rightarrow> bool" where
  \<comment> \<open>the truth value of \<^verbatim>\<open>d.get(k)\<close> for a string-valued key\<close>
  "truthy v = (case v of None \<Rightarrow> False | Some s \<Rightarrow> s \<noteq> [])"

definition get_or :: "'a option \<Rightarrow> 'a \<Rightarrow> 'a" where
  \<comment> \<open>\<^verbatim>\<open>d.get(k, default)\<close>\<close>
  "get_or v d = (case v of None \<Rightarrow> d | Some x \<Rightarrow> x)"

subsection \<open>Payloads\<close>

record parsed_description =
  pd_main :: "string option"
  pd_args :: "string option"
  pd_summary :: "string option"

record tool =
  tool_name :: "string option"
  tool_description :: "string option"
  tool_parsed_description :: "parsed_description option"
  tool_schema :: "string option"

record server_info =
  si_server_name :: "string option"
  si_description :: "string option"
  si_tags :: "string list option"
  si_tool_list :: "tool list option"
  si_num_tools :: "nat option"
  si_entity_type :: "string option"
  si_path :: "string option"
  si_is_enabled :: "bool option"
  si_other :: "(string \<times> string) list"

record skill =
  skill_name :: string
  skill_description :: string

record agent_card =
  ac_name :: string
  ac_description :: string
  ac_skills :: "skill list"
  ac_tags :: "string list"
  ac_visibility :: "string option"
  ac_trust_level :: "string option"
  ac_is_enabled :: "bool option"

datatype full_info = Full_server_info server_info | Full_agent_card agent_card

record metadata_entry =
  entry_id :: int
  text_for_embedding :: string
  entity_type :: string
  full_info :: full_info

definition full_server_info :: "metadata_entry \<Rightarrow> server_info option" where
  \<comment> \<open>\<^verbatim>\<open>entry.get("full_server_info")\<close>\<close>
  "full_server_info e = (case full_info e of Full_server_info i \<Rightarrow> Some i | Full_agent_card _ \<Rightarrow> None)"

definition full_agent_card :: "metadata_entry \<Rightarrow> agent_card option" where
  \<comment> \<open>\<^verbatim>\<open>entry.get("full_agent_card")\<close>\<close>
  "full_agent_card e = (case full_info e of Full_agent_card c \<Rightarrow> Some c | Full_server_info _ \<Rightarrow> None)"

subsection \<open>Text rendering\<close>

definition empty_pd :: parsed_description where
  "empty_pd = \<lparr>pd_main = None, pd_args = None, pd_summary = None\<rparr>"

definition tool_snippet :: "tool \<Rightarrow> string" where
  \<comment> \<open>the body of the loop of \<^verbatim>\<open>_get_text_for_embedding\<close>\<close>
  "tool_snippet t =
     (let tname = get_or (tool_name t) [];
          pd = get_or (tool_parsed_description t) empty_pd;
          tdesc = (if truthy (pd_main pd) then get_or (pd_main pd) []
                   else get_or (tool_description t) []);
          targs = get_or (pd_args pd) []
      in strip (''Tool: '' @ tname @ ''. Description: '' @ tdesc @ ''. Args: '' @ targs))"

definition get_text_for_embedding :: "server_info \<Rightarrow> string" where
  "get_text_for_embedding info =
     (let name = get_or (si_server_name info) [];
          description = get_or (si_description info) [];
          tag_string = join '', '' (get_or (si_tags info) []);
          tool_snippets = map tool_snippet (get_or (si_tool_list info) []);
          tools_section = join [CHR 0x0A] tool_snippets
      in strip (''Name: '' @ name @ [CHR 0x0A] @
                ''Description: '' @ description @ [CHR 0x0A] @
                ''Tags: '' @ tag_string @ [CHR 0x0A] @
                ''Tools:'' @ [CHR 0x0A] @ tools_section))"

definition get_text_for_agent :: "agent_card \<Rightarrow> string" where
  "get_text_for_agent acard =
     (let skills_text =
            (if ac_skills acard \<noteq> [] then
               ''Skills: '' @ join '', '' (map skill_name (ac_skills acard)) @
               [CHR 0x0A] @ ''Skill Details: '' @
               join '' | '' (map (\<lambda>k. skill_name k @ '': '' @ skill_description k) (ac_skills acard))
             else []);
          tag_string = (if ac_tags acard \<noteq> [] then join '', '' (ac_tags acard) else []);
          text_parts = [''Name: '' @ ac_name acard, ''Description: '' @ ac_description acard]
            @ (if skills_text \<noteq> [] then [skills_text] else [])
            @ (if tag_string \<noteq> [] then [''Tags: '' @ tag_string] else [])
      in join [CHR 0x0A] text_parts)"

subsection \<open>The vector index and the embedder\<close>

text \<open>
  FAISS and the embeddings client are external. The index is an \<^verbatim>\<open>IndexIDMap\<close> over a
  flat index: a sequence of (id, vector) pairs of one dimension; \<^verbatim>\<open>add_with_ids\<close>
  appends (it does not look for the id) and refuses a vector of another dimension,
  \<^verbatim>\<open>remove_ids\<close> drops every pair with the id and reports how many. The components of
  a vector are never inspected here. An embeddings client maps a text to a vector, or
  raises (\<open>None\<close>).
\<close>

datatype py_error = ValueError | RuntimeError | KeyError | AssertionError | EncodeError

type_synonym vector = "real list"

type_synonym embeddings_client = "string \<Rightarrow> vector option"

record index_id_map =
  dim :: nat
  vectors :: "(int \<times> vector) list"

definition ntotal :: "index_id_map \<Rightarrow> nat" where
  "ntotal idx = length (vectors idx)"

definition remove_ids :: "index_id_map \<Rightarrow> int \<Rightarrow> index_id_map \<times> nat" where
  "remove_ids idx i =
     (idx\<lparr>vectors := filter (\<lambda>p. fst p \<noteq> i) (vectors idx)\<rparr>,
      length (filter (\<lambda>p. fst p = i) (vectors idx)))"

definition add_with_ids :: "index_id_map \<Rightarrow> vector \<Rightarrow> int \<Rightarrow> py_error + index_id_map" where
  "add_with_ids idx v i =
     (if length v = dim idx then Inr (idx\<lparr>vectors := vectors idx @ [(i, v)]\<rparr>)
      else Inl AssertionError)"

subsection \<open>The service state\<close>

type_synonym store = "(string \<times> metadata_entry) list"

text \<open>
  The four attributes of \<^verbatim>\<open>FaissService\<close>, and two traces of its effects on the
  outside: the texts handed to \<^verbatim>\<open>embedding_model.encode\<close>, and the snapshots
  (index, metadata, next id) that \<^verbatim>\<open>save_data\<close> has written. \<^verbatim>\<open>save_data\<close>
  writes nothing when there is no index; a write that the file system refuses is logged
  by the source and leaves the service as it is, and is not modelled.
\<close>

record faiss_service =
  embedding_model :: "embeddings_client option"
  faiss_index :: "index_id_map option"
  metadata_store :: store
  next_id_counter :: int
  encode_calls :: "string list"
  saved :: "(index_id_map \<times> store \<times> int) list"

definition save_data :: "faiss_service \<Rightarrow> faiss_service" where
  "save_data s =
     (case faiss_index s of
        None \<Rightarrow> s
      | Some idx \<Rightarrow> s\<lparr>saved := saved s @ [(idx, metadata_store s, next_id_counter s)]\<rparr>)"

subsection \<open>Upsert\<close>

text \<open>
  Lines 236-253 and 349-372: the id of the entry and whether its text must be embedded.
  An entry of the store is a non-empty dictionary, so \<^verbatim>\<open>if existing_entry\<close> tests its
  presence. The result is (current id, needs embedding, state).
\<close>

definition assign_id ::
  "faiss_service \<Rightarrow> metadata_entry option \<Rightarrow> string \<Rightarrow> int \<times> bool \<times> faiss_service" where
  "assign_id s existing_entry text_to_embed =
     (case existing_entry of
        Some e \<Rightarrow> (entry_id e, text_for_embedding e \<noteq> text_to_embed, s)
      | None \<Rightarrow> (next_id_counter s, True, s\<lparr>next_id_counter := next_id_counter s + 1\<rparr>))"

text \<open>
  Lines 255-276 and 374-412: encode, drop the old vector of an existing entry, add the new
  one. \<open>Inl\<close> is the \<^verbatim>\<open>return\<close> of the exception handler, with the state it leaves.
\<close>

definition embed_and_add ::
  "embeddings_client \<Rightarrow> index_id_map \<Rightarrow> faiss_service \<Rightarrow> metadata_entry option \<Rightarrow>
   string \<Rightarrow> int \<Rightarrow> faiss_service + faiss_service" where
  "embed_and_add enc idx s existing_entry text_to_embed current_faiss_id =
     (let s1 = s\<lparr>encode_calls := encode_calls s @ [text_to_embed]\<rparr> in
      case enc text_to_embed of
        None \<Rightarrow> Inl s1
      | Some embedding \<Rightarrow>
          (let idx1 = (if existing_entry \<noteq> None then fst (remove_ids idx current_faiss_id) else idx) in
           case add_with_ids idx1 embedding current_faiss_id of
             Inl _ \<Rightarrow> Inl (s1\<lparr>faiss_index := Some idx1\<rparr>)
           | Inr idx2 \<Rightarrow> Inr (s1\<lparr>faiss_index := Some idx2\<rparr>)))"

definition add_or_update_service ::
  "faiss_service \<Rightarrow> string \<Rightarrow> server_info \<Rightarrow> bool \<Rightarrow> faiss_service" where
  "add_or_update_service s service_path info is_enabled =
     (case (embedding_model s, faiss_index s) of
        (Some enc, Some idx) \<Rightarrow>
          (let text_to_embed = get_text_for_embedding info;
               existing_entry = map_of (metadata_store s) service_path;
               (current_faiss_id, needs_new_embedding, s1) =
                  assign_id s existing_entry text_to_embed
           in case (if needs_new_embedding
                    then embed_and_add enc idx s1 existing_entry text_to_embed current_faiss_id
                    else Inr s1) of
                Inl s2 \<Rightarrow> s2
              | Inr s2 \<Rightarrow>
                  (let enriched_server_info = info\<lparr>si_is_enabled := Some is_enabled\<rparr> in
                   if existing_entry = None \<or> needs_new_embedding
                      \<or> Option.bind existing_entry full_server_info \<noteq> Some enriched_server_info
                   then save_data (s2\<lparr>metadata_store :=
                          AList.update service_path
                            \<lparr>entry_id = current_faiss_id,
                             text_for_embedding = text_to_embed,
                             entity_type = get_or (si_entity_type info) ''mcp_server'',
                             full_info = Full_server_info enriched_server_info\<rparr>
                            (metadata_store s2)\<rparr>)
                   else s2))
      | _ \<Rightarrow> s)"

definition add_or_update_agent ::
  "faiss_service \<Rightarrow> string \<Rightarrow> agent_card \<Rightarrow> bool \<Rightarrow> faiss_service" where
  "add_or_update_agent s agent_path acard is_enabled =
     (case (embedding_model s, faiss_index s) of
        (Some enc, Some idx) \<Rightarrow>
          (let text_to_embed = get_text_for_agent acard;
               existing_entry = map_of (metadata_store s) agent_path;
               (current_faiss_id, needs_new_embedding, s1) =
                  assign_id s existing_entry text_to_embed
           in case (if needs_new_embedding
                    then embed_and_add enc idx s1 existing_entry text_to_embed current_faiss_id
                    else Inr s1) of
                Inl s2 \<Rightarrow> s2
              | Inr s2 \<Rightarrow>
                  (if existing_entry = None \<or> needs_new_embedding
                      \<or> Option.bind existing_entry full_agent_card \<noteq> Some acard
                   then save_data (s2\<lparr>metadata_store :=
                          AList.update agent_path
                            \<lparr>entry_id = current_faiss_id,
                             text_for_embedding = text_to_embed,
                             entity_type = ''a2a_agent'',
                             full_info = Full_agent_card acard\<rparr>
                            (metadata_store s2)\<rparr>)
                   else s2))
      | _ \<Rightarrow> s)"

subsection \<open>Remove\<close>

definition dict_del :: "store \<Rightarrow> string \<Rightarrow> py_error + store" where
  \<comment> \<open>\<^verbatim>\<open>del d[k]\<close>\<close>
  "dict_del m k = (if map_of m k = None then Inl KeyError else Inr (AList.delete k m))"

text \<open>
  The \<^verbatim>\<open>try\<close> block of \<^verbatim>\<open>remove_service\<close> (and of \<^verbatim>\<open>remove_agent\<close>, which
  differs in its log messages only); \<open>Inl\<close> is an exception raised inside it.
\<close>

definition remove_body :: "faiss_service \<Rightarrow> string \<Rightarrow> py_error + faiss_service" where
  "remove_body s path =
     (if map_of (metadata_store s) path = None then Inr s
      else case dict_del (metadata_store s) path of
             Inl e \<Rightarrow> Inl e
           | Inr m \<Rightarrow> Inr (save_data (s\<lparr>metadata_store := m\<rparr>)))"

text \<open>
  The operations return the exception that leaves them, if any, and the state. The
  handler \<^verbatim>\<open>except Exception\<close> of \<^verbatim>\<open>remove_service\<close> and \<^verbatim>\<open>remove_agent\<close> logs
  and returns normally.
\<close>

definition remove_service :: "faiss_service \<Rightarrow> string \<Rightarrow> py_error option \<times> faiss_service" where
  "remove_service s service_path =
     (case remove_body s service_path of Inl e \<Rightarrow> (None, s) | Inr s' \<Rightarrow> (None, s'))"

definition remove_agent :: "faiss_service \<Rightarrow> string \<Rightarrow> py_error option \<times> faiss_service" where
  "remove_agent s agent_path =
     (case remove_body s agent_path of Inl e \<Rightarrow> (None, s) | Inr s' \<Rightarrow> (None, s'))"

definition remove_entity :: "faiss_service \<Rightarrow> string \<Rightarrow> py_error option \<times> faiss_service" where
  "remove_entity s entity_path =
     (case remove_agent s entity_path of
        (None, s') \<Rightarrow> (None, s')
      | (Some _, s') \<Rightarrow>
          (case remove_service s' entity_path of
             (None, s'') \<Rightarrow> (None, s'')
           | (Some _, s'') \<Rightarrow> (None, s'')))"

subsection \<open>Sequences of operations\<close>

datatype operation =
    Upsert_service string server_info bool
  | Upsert_agent string agent_card bool
  | Remove_service string
  | Remove_agent string
  | Remove_entity string

fun apply_operation :: "faiss_service \<Rightarrow> operation \<Rightarrow> faiss_service" where
  "apply_operation s (Upsert_service p i en) = add_or_update_service s p i en"
| "apply_operation s (Upsert_agent p c en) = add_or_update_agent s p c en"
| "apply_operation s (Remove_service p) = snd (remove_service s p)"
| "apply_operation s (Remove_agent p) = snd (remove_agent s p)"
| "apply_operation s (Remove_entity p) = snd (remove_entity s p)"

definition run :: "faiss_service \<Rightarrow> operation list \<Rightarrow> faiss_service" where
  "run s ops = foldl apply_operation s ops"

text \<open>
  The states a service passes through from an empty store. Between two operations the
  embeddings client may change its behaviour (a backend that fails for a while, say).
\<close>

inductive reachable :: "faiss_service \<Rightarrow> bool" where
  empty: "metadata_store s = [] \<Longrightarrow> next_id_counter s = 0 \<Longrightarrow> reachable s"
| step: "reachable s \<Longrightarrow> reachable (apply_operation s op)"
| client: "reachable s \<Longrightarrow> reachable (s\<lparr>embedding_model := em\<rparr>)"

definition live_ids :: "faiss_service \<Rightarrow> int list" where
  \<comment> \<open>the \<^verbatim>\<open>id\<close> of every entry of the metadata store, in the store's order\<close>
  "live_ids s = map (\<lambda>pe. entry_id (snd pe)) (metadata_store s)"

text \<open>What an upsert may do to the store and the counter.\<close>

definition upsert_effect :: "faiss_service \<Rightarrow> string \<Rightarrow> faiss_service \<Rightarrow> bool" where
  "upsert_effect s path s' =
     ((metadata_store s' = metadata_store s
        \<and> next_id_counter s \<le> next_id_counter s')
      \<or> (\<exists>e'. metadata_store s' = AList.update path e' (metadata_store s)
            \<and> (case map_of (metadata_store s) path of
                  Some e \<Rightarrow> entry_id e' = entry_id e \<and> next_id_counter s' = next_id_counter s
                | None \<Rightarrow> entry_id e' = next_id_counter s
                    \<and> next_id_counter s' = next_id_counter s + 1)))"

definition ids_ok :: "faiss_service \<Rightarrow> bool" where
  "ids_ok s = (distinct (live_ids s) \<and> (\<forall>i \<in> set (live_ids s). i < next_id_counter s))"

fun upsert_path :: "operation \<Rightarrow> string option" where
  "upsert_path (Upsert_service p i en) = Some p"
| "upsert_path (Upsert_agent p c en) = Some p"
| "upsert_path _ = None"

fun upsert_text :: "operation \<Rightarrow> string option" where
  \<comment> \<open>the text an upsert renders from its payload\<close>
  "upsert_text (Upsert_service p i en) = Some (get_text_for_embedding i)"
| "upsert_text (Upsert_agent p c en) = Some (get_text_for_agent c)"
| "upsert_text _ = None"

subsection \<open>Text matching\<close>

definition lower_char :: "char \<Rightarrow> char" where
  \<comment> \<open>\<^verbatim>\<open>str.lower\<close> on a code point below 256\<close>
  "lower_char c =
     (let n = (of_char c :: nat)
      in if (65 \<le> n \<and> n \<le> 90) \<or> (192 \<le> n \<and> n \<le> 214) \<or> (216 \<le> n \<and> n \<le> 222)
         then char_of (n + 32) else c)"

definition lower :: "string \<Rightarrow> string" where
  "lower s = map lower_char s"

definition is_word_char :: "char \<Rightarrow> bool" where
  \<comment> \<open>the class \<^verbatim>\<open>\w\<close> of \<^verbatim>\<open>re\<close> on the code points below 256\<close>
  "is_word_char c =
     (let n = (of_char c :: nat)
      in (48 \<le> n \<and> n \<le> 57) \<or> (65 \<le> n \<and> n \<le> 90) \<or> n = 95 \<or> (97 \<le> n \<and> n \<le> 122)
         \<or> n = 170 \<or> n = 178 \<or> n = 179 \<or> n = 181 \<or> n = 185 \<or> n = 186
         \<or> (188 \<le> n \<and> n \<le> 190) \<or> (192 \<le> n \<and> n \<le> 214) \<or> (216 \<le> n \<and> n \<le> 246)
         \<or> 248 \<le> n)"

text \<open>
  \<^verbatim>\<open>re.split(r"\W+", s)\<close>: the pieces of \<open>s\<close> between the maximal runs of characters
  that are not word characters; the first and the last piece may be empty. \<open>cur\<close> is
  the piece being read, reversed.
\<close>

function split_nonword :: "string \<Rightarrow> string \<Rightarrow> string list" where
  "split_nonword cur [] = [rev cur]"
| "split_nonword cur (c # cs) =
     (if is_word_char c then split_nonword (c # cur) cs
      else rev cur # split_nonword [] (dropWhile (\<lambda>d. \<not> is_word_char d) cs))"
  by pat_completeness auto
termination
  by (relation "measure (\<lambda>(cur, s). length s)") (auto simp: length_dropWhile_le less_Suc_eq_le)

definition query_tokens :: "string \<Rightarrow> string list" where
  \<comment> \<open>\<^verbatim>\<open>[token for token in re.split(r"\W+", query.lower()) if token]\<close>\<close>
  "query_tokens query = filter (\<lambda>token. token \<noteq> []) (split_nonword [] (lower query))"

fun occurs_in :: "string \<Rightarrow> string \<Rightarrow> bool" where
  \<comment> \<open>\<^verbatim>\<open>token in text\<close>\<close>
  "occurs_in token [] = (token = [])"
| "occurs_in token (c # cs) = (prefix token (c # cs) \<or> occurs_in token cs)"

subsection \<open>Floating point\<close>

text \<open>
  A Python \<^verbatim>\<open>float\<close> is an IEEE 754 binary64 number. The finite ones are modelled by
  the reals they denote, and an arithmetic operation by the exact operation followed by
  rounding to the nearest number with a significand of 53 bits, ties to the even
  significand. The exponent is not bounded: the model is exact as long as a result is in
  the normal range, from \<open>2 powi - 1022\<close> to below \<open>2 powi 1024\<close>, which holds for the
  sums, reciprocals and quotients formed here from distances of single precision and
  from small counts.
\<close>

definition round_even :: "real \<Rightarrow> int" where
  "round_even r =
     (let f = \<lfloor>r\<rfloor>; d = r - of_int f
      in if d < 1 / 2 then f else if 1 / 2 < d then f + 1 else if even f then f else f + 1)"

definition float_exponent :: "real \<Rightarrow> int" where
  \<comment> \<open>for \<open>0 < x\<close>: the \<open>e\<close> with \<open>2 powi e \<le> x < 2 powi (e + 1)\<close>\<close>
  "float_exponent x = (if 1 \<le> x then bitlen \<lfloor>x\<rfloor> - 1 else - bitlen (\<lceil>1 / x\<rceil> - 1))"

definition round_double :: "real \<Rightarrow> real" where
  "round_double x =
     (if x = 0 then 0
      else let u = 2 powi (float_exponent \<bar>x\<bar> - 52)
           in sgn x * (of_int (round_even (\<bar>x\<bar> / u)) * u))"

definition fadd :: "real \<Rightarrow> real \<Rightarrow> real" where
  "fadd a b = round_double (a + b)"

definition fdiv :: "real \<Rightarrow> real \<Rightarrow> real" where
  \<comment> \<open>\<^verbatim>\<open>a / b\<close> for \<open>b \<noteq> 0\<close>; the caller handles \<^verbatim>\<open>ZeroDivisionError\<close>\<close>
  "fdiv a b = round_double (a / b)"

definition distance_to_relevance :: "real \<Rightarrow> real" where
  \<comment> \<open>\<^verbatim>\<open>_distance_to_relevance\<close>; the handler returns 0.0 when the division raises\<close>
  "distance_to_relevance distance =
     (let s = fadd 1 distance
      in if s = 0 then 0 else max 0 (min 1 (fdiv 1 s)))"

subsection \<open>The tool matcher\<close>

record tool_match =
  tm_tool_name :: string
  tm_description :: string
  tm_match_context :: string
  tm_schema :: "string option"
  tm_raw_score :: real

definition tool_desc_of :: "tool \<Rightarrow> string" where
  \<comment> \<open>\<^verbatim>\<open>parsed_description.get("main") or tool.get("description") or
      parsed_description.get("summary") or ""\<close>\<close>
  "tool_desc_of t =
     (let pd = get_or (tool_parsed_description t) empty_pd
      in if truthy (pd_main pd) then get_or (pd_main pd) []
         else if truthy (tool_description t) then get_or (tool_description t) []
         else if truthy (pd_summary pd) then get_or (pd_summary pd) []
         else [])"

definition tool_args_of :: "tool \<Rightarrow> string" where
  "tool_args_of t = get_or (pd_args (get_or (tool_parsed_description t) empty_pd)) []"

definition searchable_text :: "tool \<Rightarrow> string" where
  "searchable_text t =
     lower (get_or (tool_name t) [] @ '' '' @ tool_desc_of t @ '' '' @ tool_args_of t)"

definition matches_found :: "string list \<Rightarrow> tool \<Rightarrow> nat" where
  \<comment> \<open>\<^verbatim>\<open>sum(1 for token in tokens if token in searchable_text)\<close>\<close>
  "matches_found tokens t = length (filter (\<lambda>token. occurs_in token (searchable_text t)) tokens)"

definition coverage :: "string list \<Rightarrow> tool \<Rightarrow> real" where
  "coverage tokens t = fdiv (real (matches_found tokens t)) (real (length tokens))"

definition tool_matches :: "string list \<Rightarrow> tool \<Rightarrow> bool" where
  \<comment> \<open>the tool passes both \<^verbatim>\<open>continue\<close> tests of the loop\<close>
  "tool_matches tokens t = (strip (searchable_text t) \<noteq> [] \<and> matches_found tokens t \<noteq> 0)"

definition match_of :: "string list \<Rightarrow> tool \<Rightarrow> tool_match" where
  "match_of tokens t =
     \<lparr>tm_tool_name = get_or (tool_name t) [],
      tm_description = tool_desc_of t,
      tm_match_context =
        take 180 (if tool_desc_of t \<noteq> [] then tool_desc_of t else tool_args_of t),
      tm_schema = tool_schema t,
      tm_raw_score = coverage tokens t\<rparr>"

definition sort_descending :: "('a \<Rightarrow> real) \<Rightarrow> 'a list \<Rightarrow> 'a list" where
  \<comment> \<open>\<^verbatim>\<open>xs.sort(key=..., reverse=True)\<close>: stable, equal keys keep their order\<close>
  "sort_descending key xs = sort_key (\<lambda>x. - key x) xs"

definition extract_matching_tools :: "string \<Rightarrow> server_info \<Rightarrow> tool_match list" where
  "extract_matching_tools query info =
     (let tools = get_or (si_tool_list info) [] in
      if tools = [] then []
      else let tokens = query_tokens query in
        if tokens = [] then []
        else map snd (sort_descending fst
               (map (\<lambda>t. (coverage tokens t, match_of tokens t))
                    (filter (tool_matches tokens) tools))))"

subsection \<open>Mixed search\<close>

record matching_tool =
  mt_tool_name :: string
  mt_description :: string
  mt_relevance_score :: real
  mt_match_context :: string

record server_result =
  sr_path :: string
  sr_server_name :: string
  sr_description :: string
  sr_tags :: "string list"
  sr_num_tools :: nat
  sr_is_enabled :: bool
  sr_relevance_score :: real
  sr_match_context :: "string option"
  sr_matching_tools :: "matching_tool list"

record tool_result =
  tr_server_path :: string
  tr_server_name :: string
  tr_tool_name :: string
  tr_description :: string
  tr_match_context :: string
  tr_relevance_score :: real

record agent_result =
  ar_path :: string
  ar_agent_name :: string
  ar_description :: string
  ar_tags :: "string list"
  ar_skills :: "string list"
  ar_visibility :: string
  ar_trust_level :: "string option"
  ar_is_enabled :: bool
  ar_relevance_score :: real
  ar_match_context :: string
  ar_agent_card :: agent_card

record search_results =
  servers :: "server_result list"
  tools :: "tool_result list"
  agents :: "agent_result list"

definition strip_slashes :: "string \<Rightarrow> string" where
  \<comment> \<open>\<^verbatim>\<open>path.strip("/")\<close>\<close>
  "strip_slashes s =
     rev (dropWhile (\<lambda>c. c = CHR ''/'') (rev (dropWhile (\<lambda>c. c = CHR ''/'') s)))"

definition composite_score :: "real \<Rightarrow> real \<Rightarrow> real" where
  \<comment> \<open>\<^verbatim>\<open>min(1.0, (relevance + raw_score) / 2)\<close>\<close>
  "composite_score relevance raw = min 1 (fdiv (fadd relevance raw) 2)"

definition entity_filter_of :: "string list option \<Rightarrow> string set" where
  "entity_filter_of entity_types =
     (let requested = (case entity_types of
                         None \<Rightarrow> [''mcp_server'', ''tool'', ''a2a_agent'']
                       | Some ts \<Rightarrow> if ts = [] then [''mcp_server'', ''tool'', ''a2a_agent''] else ts);
          allowed = {''mcp_server'', ''tool'', ''a2a_agent''};
          entity_filter = set requested \<inter> allowed
      in if entity_filter = {} then allowed else entity_filter)"

definition id_to_path :: "store \<Rightarrow> int \<Rightarrow> string option" where
  \<comment> \<open>\<^verbatim>\<open>{entry.get("id"): path for path, entry in metadata_store.items()}\<close>: of
      two entries with one id, the later one stays\<close>
  "id_to_path m = map_of (rev (map (\<lambda>pe. (entry_id (snd pe), fst pe)) m))"

definition server_hit ::
  "string set \<Rightarrow> string \<Rightarrow> string \<Rightarrow> real \<Rightarrow> server_info \<Rightarrow>
   server_result list \<times> tool_result list" where
  "server_hit entity_filter query path relevance info =
     (let match_context =
            (if truthy (si_description info) then si_description info
             else if join '', '' (get_or (si_tags info) []) \<noteq> []
                  then Some (join '', '' (get_or (si_tags info) []))
             else si_path info);
          the_matching_tools =
            (if ''tool'' \<in> entity_filter then take 5 (extract_matching_tools query info) else []);
          server_name = get_or (si_server_name info) (strip_slashes path)
      in ((if ''mcp_server'' \<in> entity_filter then
             [\<lparr>sr_path = path,
               sr_server_name = server_name,
               sr_description = get_or (si_description info) [],
               sr_tags = get_or (si_tags info) [],
               sr_num_tools = get_or (si_num_tools info) 0,
               sr_is_enabled = get_or (si_is_enabled info) False,
               sr_relevance_score = relevance,
               sr_match_context = match_context,
               sr_matching_tools =
                 map (\<lambda>t. \<lparr>mt_tool_name = tm_tool_name t,
                            mt_description = tm_description t,
                            mt_relevance_score = composite_score relevance (tm_raw_score t),
                            mt_match_context = tm_match_context t\<rparr>) the_matching_tools\<rparr>]
           else []),
          (if ''tool'' \<in> entity_filter then
             map (\<lambda>t. \<lparr>tr_server_path = path,
                        tr_server_name = server_name,
                        tr_tool_name = tm_tool_name t,
                        tr_description = tm_description t,
                        tr_match_context = tm_match_context t,
                        tr_relevance_score = composite_score relevance (tm_raw_score t)\<rparr>)
                 the_matching_tools
           else [])))"

definition agent_hit :: "string \<Rightarrow> real \<Rightarrow> agent_card \<Rightarrow> agent_result" where
  "agent_hit path relevance acard =
     (let skills = map skill_name (ac_skills acard)
      in \<lparr>ar_path = path,
          ar_agent_name = ac_name acard,
          ar_description = ac_description acard,
          ar_tags = ac_tags acard,
          ar_skills = skills,
          ar_visibility = get_or (ac_visibility acard) ''public'',
          ar_trust_level = ac_trust_level acard,
          ar_is_enabled = get_or (ac_is_enabled acard) False,
          ar_relevance_score = relevance,
          ar_match_context =
            (if ac_description acard \<noteq> [] then ac_description acard
             else if join '', '' skills \<noteq> [] then join '', '' skills
             else join '', '' (ac_tags acard)),
          ar_agent_card = acard\<rparr>)"

text \<open>
  The body of the loop over the hits: what one (distance, id) pair adds to the three
  result lists. A hit with the id -1, with an id that no entry has, or whose path is the
  empty string is skipped.
\<close>

definition hit_results ::
  "store \<Rightarrow> string set \<Rightarrow> string \<Rightarrow> real \<times> int \<Rightarrow>
   server_result list \<times> tool_result list \<times> agent_result list" where
  "hit_results m entity_filter query hit =
     (let distance = fst hit; faiss_id = snd hit in
      if faiss_id = - 1 then ([], [], [])
      else case id_to_path m faiss_id of
        None \<Rightarrow> ([], [], [])
      | Some path \<Rightarrow>
          if path = [] then ([], [], [])
          else case map_of m path of
            None \<Rightarrow> ([], [], [])
          | Some metadata_entry \<Rightarrow>
              (let relevance = distance_to_relevance distance in
               if entity_type metadata_entry = ''mcp_server'' then
                 (case full_server_info metadata_entry of
                    None \<Rightarrow> ([], [], [])
                  | Some info \<Rightarrow>
                      (let (srv, tls) = server_hit entity_filter query path relevance info
                       in (srv, tls, [])))
               else if entity_type metadata_entry = ''a2a_agent'' then
                 (if ''a2a_agent'' \<notin> entity_filter then ([], [], [])
                  else case full_agent_card metadata_entry of
                    None \<Rightarrow> ([], [], [])
                  | Some acard \<Rightarrow> ([], [], [agent_hit path relevance acard]))
               else ([], [], [])))"

text \<open>
  \<^verbatim>\<open>faiss_index.search\<close> is a parameter: given the index, the query vector and
  \<open>k\<close>, it yields the (distance, id) pairs of the nearest vectors. It refuses a query
  vector of another dimension than the index's.
\<close>

type_synonym knn_search = "index_id_map \<Rightarrow> vector \<Rightarrow> nat \<Rightarrow> (real \<times> int) list"

definition search_mixed ::
  "knn_search \<Rightarrow> faiss_service \<Rightarrow> string \<Rightarrow> string list option \<Rightarrow> int \<Rightarrow>
   (py_error + search_results) \<times> faiss_service" where
  "search_mixed knn s query entity_types max_results =
     (if query = [] \<or> strip query = [] then (Inl ValueError, s)
      else case (embedding_model s, faiss_index s) of
        (Some enc, Some idx) \<Rightarrow>
          (let limit = nat (max 1 (min max_results 50));
               entity_filter = entity_filter_of entity_types;
               total_vectors = ntotal idx
           in if total_vectors = 0
              then (Inr \<lparr>servers = [], tools = [], agents = []\<rparr>, s)
              else
                (let top_k = min limit total_vectors;
                     s1 = s\<lparr>encode_calls := encode_calls s @ [strip query]\<rparr>
                 in case enc (strip query) of
                      None \<Rightarrow> (Inl EncodeError, s1)
                    | Some query_embedding \<Rightarrow>
                        if length query_embedding \<noteq> dim idx then (Inl AssertionError, s1)
                        else
                        (let hits = knn idx query_embedding top_k;
                             found = map (hit_results (metadata_store s) entity_filter query) hits;
                             server_results = concat (map fst found);
                             tool_results = concat (map (\<lambda>r. fst (snd r)) found);
                             agent_results = concat (map (\<lambda>r. snd (snd r)) found)
                         in (Inr \<lparr>servers = take limit (sort_descending sr_relevance_score server_results),
                                  tools = take limit (sort_descending tr_relevance_score tool_results),
                                  agents = take limit (sort_descending ar_relevance_score agent_results)\<rparr>,
                             s1))))
      | _ \<Rightarrow> (Inl RuntimeError, s))"

section \<open>Sample data\<close>

text \<open>The server of the specification's scenario, and a service that has just been initialised.\<close>

definition weather_info :: server_info where
  "weather_info =
     \<lparr>si_server_name = Some ''WeatherAPI'', si_description = Some ''get forecasts'',
      si_tags = Some [''weather''],
      si_tool_list = Some [\<lparr>tool_name = Some ''get_forecast'',
         tool_description = Some ''returns forecast'',
         tool_parsed_description = None, tool_schema = None\<rparr>],
      si_num_tools = Some 1, si_entity_type = None, si_path = None, si_is_enabled = None,
      si_other = []\<rparr>"

definition bot_card :: agent_card where
  "bot_card =
     \<lparr>ac_name = ''Bot1'', ac_description = ''schedules meetings'',
      ac_skills = [\<lparr>skill_name = ''calendar'', skill_description = ''manage calendar''\<rparr>],
      ac_tags = [], ac_visibility = None, ac_trust_level = None, ac_is_enabled = None\<rparr>"

definition unit_encoder :: embeddings_client where
  "unit_encoder = (\<lambda>t. Some [1, 0])"

definition failing_encoder :: embeddings_client where
  "failing_encoder = (\<lambda>t. None)"

definition empty_index :: index_id_map where
  "empty_index = \<lparr>dim = 2, vectors = []\<rparr>"

definition fresh_service :: "embeddings_client \<Rightarrow> faiss_service" where
  "fresh_service enc =
     \<lparr>embedding_model = Some enc, faiss_index = Some empty_index, metadata_store = [],
      next_id_counter = 0, encode_calls = [], saved = []\<rparr>"

definition weather_entry :: metadata_entry where
  "weather_entry =
     \<lparr>entry_id = 0, text_for_embedding = get_text_for_embedding weather_info,
      entity_type = ''mcp_server'',
      full_info = Full_server_info (weather_info\<lparr>si_is_enabled := Some True\<rparr>)\<rparr>"

definition weather_service :: faiss_service where
  "weather_service =
     \<lparr>embedding_model = Some unit_encoder,
      faiss_index = Some \<lparr>dim = 2, vectors = [(0, [1, 0])]\<rparr>,
      metadata_store = [(''/weather'', weather_entry)],
      next_id_counter = 1, encode_calls = [], saved = []\<rparr>"

definition failing_weather_service :: faiss_service where
  "failing_weather_service = weather_service\<lparr>embedding_model := Some failing_encoder\<rparr>"

definition busy_service :: faiss_service where
  "busy_service = run (fresh_service unit_encoder)
     [Upsert_service ''/weather'' weather_info True,
      Upsert_agent ''/agents/bot1'' bot_card False,
      Remove_service ''/weather'',
      Upsert_service ''/weather'' weather_info True]"

definition two_upserts :: "operation list" where
  "two_upserts = [Upsert_service ''/weather'' weather_info True,
                  Upsert_agent ''/agents/bot1'' bot_card False]"

definition first_vectors :: knn_search where
  \<comment> \<open>a search that reports the first \<open>k\<close> vectors of the index, at distance 0\<close>
  "first_vectors idx q k = map (\<lambda>p. (0, fst p)) (take k (vectors idx))"

definition after_removal :: faiss_service where
  "after_removal = run weather_service
     [Remove_service ''/weather'', Upsert_agent ''/agents/bot1'' bot_card False]"

definition storm_info :: server_info where
  "storm_info = weather_info\<lparr>si_tool_list := Some
     [\<lparr>tool_name = Some ''alerts'', tool_description = Some ''storm alerts'',
       tool_parsed_description = None, tool_schema = None\<rparr>,
      \<lparr>tool_name = Some ''get_forecast'', tool_description = Some ''returns weather forecast'',
       tool_parsed_description = None, tool_schema = None\<rparr>]\<rparr>"

definition forecast_tool :: tool where
  "forecast_tool = \<lparr>tool_name = Some ''get_forecast'', tool_description = Some ''returns forecast'',
     tool_parsed_description = None, tool_schema = None\<rparr>"

section \<open>Properties of removal\<close>

lemma remove_body_absent:
  "map_of (metadata_store s) path = None \<Longrightarrow> remove_body s path = Inr s"
  by (simp add: remove_body_def)

lemma remove_body_present:
  "map_of (metadata_store s) path \<noteq> None \<Longrightarrow>
   remove_body s path =
     Inr (save_data (s\<lparr>metadata_store := AList.delete path (metadata_store s)\<rparr>))"
  by (auto simp: remove_body_def dict_del_def)

lemma save_data_initialised:
  "faiss_index s = Some idx \<Longrightarrow>
   save_data s = s\<lparr>saved := saved s @ [(idx, metadata_store s, next_id_counter s)]\<rparr>"
  by (simp add: save_data_def)

lemma remove_body_present_initialised:
  assumes "map_of (metadata_store s) path \<noteq> None" and "faiss_index s = Some idx"
  shows "remove_body s path =
     Inr (s\<lparr>metadata_store := AList.delete path (metadata_store s),
            saved := saved s @ [(idx, AList.delete path (metadata_store s), next_id_counter s)]\<rparr>)"
  using assms by (simp add: remove_body_present save_data_initialised)

text \<open>
  C6. Removing a path that the metadata store does not hold changes nothing (and is no
  error). Removing a path it holds deletes that entry and no other, and writes the result
  to disk; the vector index, with the vector of the removed entry, and the id counter are
  as before. This holds for \<^verbatim>\<open>remove_service\<close> and \<^verbatim>\<open>remove_agent\<close>, on a service
  whose index has been initialised (only such a service holds entries).
\<close>

theorem remove_frame:
  assumes "faiss_index s = Some idx"
  shows "(map_of (metadata_store s) path = None \<longrightarrow>
            remove_service s path = (None, s) \<and> remove_agent s path = (None, s))
       \<and> (map_of (metadata_store s) path \<noteq> None \<longrightarrow>
            remove_service s path =
              (None, s\<lparr>metadata_store := AList.delete path (metadata_store s),
                        saved := saved s @
                          [(idx, AList.delete path (metadata_store s), next_id_counter s)]\<rparr>)
          \<and> remove_agent s path =
              (None, s\<lparr>metadata_store := AList.delete path (metadata_store s),
                        saved := saved s @
                          [(idx, AList.delete path (metadata_store s), next_id_counter s)]\<rparr>))
       \<and> map_of (AList.delete path (metadata_store s)) path = None
       \<and> (\<forall>q. q \<noteq> path \<longrightarrow>
            map_of (AList.delete path (metadata_store s)) q = map_of (metadata_store s) q)"
proof (intro conjI impI allI)
  assume absent: "map_of (metadata_store s) path = None"
  show "remove_service s path = (None, s)"
    by (simp add: remove_service_def remove_body_absent [OF absent])
  show "remove_agent s path = (None, s)"
    by (simp add: remove_agent_def remove_body_absent [OF absent])
next
  assume present: "map_of (metadata_store s) path \<noteq> None"
  note body = remove_body_present_initialised [OF present assms]
  show "remove_service s path =
      (None, s\<lparr>metadata_store := AList.delete path (metadata_store s),
                saved := saved s @
                  [(idx, AList.delete path (metadata_store s), next_id_counter s)]\<rparr>)"
    by (simp add: remove_service_def body)
  show "remove_agent s path =
      (None, s\<lparr>metadata_store := AList.delete path (metadata_store s),
                saved := saved s @
                  [(idx, AList.delete path (metadata_store s), next_id_counter s)]\<rparr>)"
    by (simp add: remove_agent_def body)
next
  show "map_of (AList.delete path (metadata_store s)) path = None"
    by (simp add: delete_conv')
next
  fix q :: string
  assume "q \<noteq> path"
  then show "map_of (AList.delete path (metadata_store s)) q = map_of (metadata_store s) q"
    by (simp add: delete_conv')
qed

theorem remove_frame_witness:
  "remove_service weather_service ''/weather'' =
     (None, weather_service\<lparr>metadata_store := [],
        saved := [(\<lparr>dim = 2, vectors = [(0, [1, 0])]\<rparr>, [], 1)]\<rparr>)
   \<and> remove_agent weather_service ''/other'' = (None, weather_service)
   \<and> faiss_index (snd (remove_service weather_service ''/weather''))
        = Some \<lparr>dim = 2, vectors = [(0, [1, 0])]\<rparr>
   \<and> next_id_counter (snd (remove_service weather_service ''/weather'')) = 1"
proof -
  have idx: "faiss_index weather_service = Some \<lparr>dim = 2, vectors = [(0, [1, 0])]\<rparr>"
    by (simp add: weather_service_def)
  have store: "metadata_store weather_service = [(''/weather'', weather_entry)]"
    by (simp add: weather_service_def)
  have saved0: "saved weather_service = []" and ctr: "next_id_counter weather_service = 1"
    by (simp_all add: weather_service_def)
  from remove_frame [OF idx, of "''/weather''"]
  have a: "remove_service weather_service ''/weather'' =
     (None, weather_service\<lparr>metadata_store := [],
        saved := [(\<lparr>dim = 2, vectors = [(0, [1, 0])]\<rparr>, [], 1)]\<rparr>)"
    by (simp add: store saved0 ctr)
  from remove_frame [OF idx, of "''/other''"]
  have b: "remove_agent weather_service ''/other'' = (None, weather_service)"
    by (simp add: store)
  show ?thesis
    by (simp add: a b idx ctr)
qed

text \<open>
  C10. \<^verbatim>\<open>remove_agent\<close> and \<^verbatim>\<open>remove_service\<close> yield the same state on every
  state and path: neither reads the stored entity type, each deletes the entry at the
  path, whatever its type, and saves, and each leaves a state without the path as it is.
  No exception leaves \<^verbatim>\<open>remove_agent\<close>, so \<^verbatim>\<open>remove_entity\<close>, which falls back to
  \<^verbatim>\<open>remove_service\<close> only on an exception, is \<^verbatim>\<open>remove_agent\<close>.
\<close>

theorem remove_agent_service_same:
  "remove_agent s path = remove_service s path
   \<and> remove_entity s path = remove_agent s path
   \<and> fst (remove_agent s path) = None
   \<and> snd (remove_agent s path) =
       (if map_of (metadata_store s) path = None then s
        else save_data (s\<lparr>metadata_store := AList.delete path (metadata_store s)\<rparr>))"
proof -
  have same: "remove_agent s path = remove_service s path"
    by (simp add: remove_agent_def remove_service_def)
  have no_exception: "fst (remove_agent s path) = None"
    by (simp add: remove_agent_def split: sum.splits)
  have entity: "remove_entity s path = remove_agent s path"
    using no_exception by (cases "remove_agent s path") (simp add: remove_entity_def)
  have post: "snd (remove_agent s path) =
       (if map_of (metadata_store s) path = None then s
        else save_data (s\<lparr>metadata_store := AList.delete path (metadata_store s)\<rparr>))"
    by (simp add: remove_agent_def remove_body_absent remove_body_present)
  from same entity no_exception post show ?thesis by simp
qed

theorem remove_agent_service_same_witness:
  "remove_agent weather_service ''/weather'' = remove_service weather_service ''/weather''
   \<and> remove_entity weather_service ''/weather'' = remove_agent weather_service ''/weather''
   \<and> entity_type weather_entry = ''mcp_server''
   \<and> metadata_store (snd (remove_agent weather_service ''/weather'')) = []"
proof -
  have store: "metadata_store weather_service = [(''/weather'', weather_entry)]"
    by (simp add: weather_service_def)
  have kind: "entity_type weather_entry = ''mcp_server''"
    by (simp add: weather_entry_def)
  have deleted: "metadata_store (save_data (weather_service\<lparr>metadata_store := []\<rparr>)) = []"
    by (simp add: save_data_def weather_service_def)
  note inst = remove_agent_service_same [of weather_service "''/weather''"]
  have same: "remove_agent weather_service ''/weather'' = remove_service weather_service ''/weather''"
    using inst by blast
  have entity: "remove_entity weather_service ''/weather'' = remove_agent weather_service ''/weather''"
    using inst by blast
  have "snd (remove_agent weather_service ''/weather'') =
      (if map_of (metadata_store weather_service) ''/weather'' = None then weather_service
       else save_data (weather_service\<lparr>metadata_store :=
              AList.delete ''/weather'' (metadata_store weather_service)\<rparr>))"
    using inst by blast
  then have post: "snd (remove_agent weather_service ''/weather'') =
      save_data (weather_service\<lparr>metadata_store := []\<rparr>)"
    by (simp add: store)
  have gone: "metadata_store (snd (remove_agent weather_service ''/weather'')) = []"
    by (simp only: post deleted)
  show ?thesis
    by (intro conjI) (rule same, rule entity, rule kind, rule gone)
qed

section \<open>Properties of upsert\<close>

lemma update_absent: "map_of al k = None \<Longrightarrow> AList.update k v al = al @ [(k, v)]"
  by (induction al) (auto split: if_splits)

lemma service_encode_fails:
  assumes "embedding_model s = Some enc" "faiss_index s = Some idx"
    and "enc (get_text_for_embedding info) = None"
    and "\<forall>e. map_of (metadata_store s) path = Some e \<longrightarrow>
           text_for_embedding e \<noteq> get_text_for_embedding info"
  shows "add_or_update_service s path info en =
     s\<lparr>next_id_counter :=
          (if map_of (metadata_store s) path = None then next_id_counter s + 1
           else next_id_counter s),
       encode_calls := encode_calls s @ [get_text_for_embedding info]\<rparr>"
  using assms
  by (auto simp: add_or_update_service_def assign_id_def embed_and_add_def Let_def
      split: option.splits)

lemma agent_encode_fails:
  assumes "embedding_model s = Some enc" "faiss_index s = Some idx"
    and "enc (get_text_for_agent acard) = None"
    and "\<forall>e. map_of (metadata_store s) path = Some e \<longrightarrow>
           text_for_embedding e \<noteq> get_text_for_agent acard"
  shows "add_or_update_agent s path acard en =
     s\<lparr>next_id_counter :=
          (if map_of (metadata_store s) path = None then next_id_counter s + 1
           else next_id_counter s),
       encode_calls := encode_calls s @ [get_text_for_agent acard]\<rparr>"
  using assms
  by (auto simp: add_or_update_agent_def assign_id_def embed_and_add_def Let_def
      split: option.splits)

lemma service_same_text:
  assumes "map_of (metadata_store s) path = Some e"
    and "text_for_embedding e = get_text_for_embedding info"
  shows "add_or_update_service s path info en =
     (if embedding_model s = None \<or> faiss_index s = None
         \<or> full_server_info e = Some (info\<lparr>si_is_enabled := Some en\<rparr>) then s
      else save_data (s\<lparr>metadata_store := AList.update path
             \<lparr>entry_id = entry_id e, text_for_embedding = text_for_embedding e,
              entity_type = get_or (si_entity_type info) ''mcp_server'',
              full_info = Full_server_info (info\<lparr>si_is_enabled := Some en\<rparr>)\<rparr>
             (metadata_store s)\<rparr>))"
  using assms
  by (auto simp: add_or_update_service_def assign_id_def Let_def split: option.splits)

lemma agent_same_text:
  assumes "map_of (metadata_store s) path = Some e"
    and "text_for_embedding e = get_text_for_agent acard"
  shows "add_or_update_agent s path acard en =
     (if embedding_model s = None \<or> faiss_index s = None
         \<or> full_agent_card e = Some acard then s
      else save_data (s\<lparr>metadata_store := AList.update path
             \<lparr>entry_id = entry_id e, text_for_embedding = text_for_embedding e,
              entity_type = ''a2a_agent'',
              full_info = Full_agent_card acard\<rparr>
             (metadata_store s)\<rparr>))"
  using assms
  by (auto simp: add_or_update_agent_def assign_id_def Let_def split: option.splits)

text \<open>
  C1 (as amended). When an upsert must embed (the path is new, or its text has changed)
  and the encode call fails, the metadata store, the vector index and the files on disk
  are as before. The id counter is as before for a path the store holds; for a new path
  it has advanced by one, since the id is taken before the text is encoded and is not
  given back.
\<close>

theorem upsert_encode_failure:
  assumes "embedding_model s = Some enc" and "faiss_index s = Some idx"
  shows "(enc (get_text_for_embedding info) = None
          \<and> (\<forall>e. map_of (metadata_store s) path = Some e \<longrightarrow>
                 text_for_embedding e \<noteq> get_text_for_embedding info) \<longrightarrow>
          metadata_store (add_or_update_service s path info en) = metadata_store s
          \<and> faiss_index (add_or_update_service s path info en) = faiss_index s
          \<and> saved (add_or_update_service s path info en) = saved s
          \<and> next_id_counter (add_or_update_service s path info en) =
              (if map_of (metadata_store s) path = None then next_id_counter s + 1
               else next_id_counter s))
       \<and> (enc (get_text_for_agent acard) = None
          \<and> (\<forall>e. map_of (metadata_store s) path = Some e \<longrightarrow>
                 text_for_embedding e \<noteq> get_text_for_agent acard) \<longrightarrow>
          metadata_store (add_or_update_agent s path acard en) = metadata_store s
          \<and> faiss_index (add_or_update_agent s path acard en) = faiss_index s
          \<and> saved (add_or_update_agent s path acard en) = saved s
          \<and> next_id_counter (add_or_update_agent s path acard en) =
              (if map_of (metadata_store s) path = None then next_id_counter s + 1
               else next_id_counter s))"
proof (intro conjI impI; elim conjE)
  assume "enc (get_text_for_embedding info) = None"
    and "\<forall>e. map_of (metadata_store s) path = Some e \<longrightarrow>
           text_for_embedding e \<noteq> get_text_for_embedding info"
  note eq = service_encode_fails [OF assms this, of en]
  show "metadata_store (add_or_update_service s path info en) = metadata_store s"
    and "faiss_index (add_or_update_service s path info en) = faiss_index s"
    and "saved (add_or_update_service s path info en) = saved s"
    and "next_id_counter (add_or_update_service s path info en) =
              (if map_of (metadata_store s) path = None then next_id_counter s + 1
               else next_id_counter s)"
    by (simp_all add: eq)
next
  assume "enc (get_text_for_agent acard) = None"
    and "\<forall>e. map_of (metadata_store s) path = Some e \<longrightarrow>
           text_for_embedding e \<noteq> get_text_for_agent acard"
  note eq = agent_encode_fails [OF assms this, of en]
  show "metadata_store (add_or_update_agent s path acard en) = metadata_store s"
    and "faiss_index (add_or_update_agent s path acard en) = faiss_index s"
    and "saved (add_or_update_agent s path acard en) = saved s"
    and "next_id_counter (add_or_update_agent s path acard en) =
              (if map_of (metadata_store s) path = None then next_id_counter s + 1
               else next_id_counter s)"
    by (simp_all add: eq)
qed

theorem upsert_encode_failure_witness:
  "metadata_store (add_or_update_service failing_weather_service ''/weather''
       (weather_info\<lparr>si_description := Some ''storm warnings''\<rparr>) True)
     = [(''/weather'', weather_entry)]
   \<and> next_id_counter (add_or_update_service failing_weather_service ''/weather''
       (weather_info\<lparr>si_description := Some ''storm warnings''\<rparr>) True) = 1
   \<and> metadata_store (add_or_update_agent failing_weather_service ''/agents/bot1'' bot_card False)
     = [(''/weather'', weather_entry)]
   \<and> next_id_counter (add_or_update_agent failing_weather_service ''/agents/bot1'' bot_card False) = 2"
proof -
  let ?s = failing_weather_service
  let ?i = "weather_info\<lparr>si_description := Some ''storm warnings''\<rparr>"
  have em: "embedding_model ?s = Some failing_encoder"
    and ix: "faiss_index ?s = Some \<lparr>dim = 2, vectors = [(0, [1, 0])]\<rparr>"
    and st: "metadata_store ?s = [(''/weather'', weather_entry)]"
    and ct: "next_id_counter ?s = 1"
    by (simp_all add: failing_weather_service_def weather_service_def)
  have differs: "text_for_embedding weather_entry \<noteq> get_text_for_embedding ?i"
    by code_simp
  have fails: "failing_encoder t = None" for t
    by (simp add: failing_encoder_def)
  from upsert_encode_failure [OF em ix, of ?i "''/weather''" True bot_card]
  have a: "metadata_store (add_or_update_service ?s ''/weather'' ?i True) = [(''/weather'', weather_entry)]
     \<and> next_id_counter (add_or_update_service ?s ''/weather'' ?i True) = 1"
    using differs by (simp add: fails st ct)
  from upsert_encode_failure [OF em ix, of ?i "''/agents/bot1''" False bot_card]
  have b: "metadata_store (add_or_update_agent ?s ''/agents/bot1'' bot_card False) = [(''/weather'', weather_entry)]
     \<and> next_id_counter (add_or_update_agent ?s ''/agents/bot1'' bot_card False) = 2"
    by (simp add: fails st ct)
  from a b show ?thesis by blast
qed

theorem upsert_encode_failure_counterexample:
  "failing_encoder (get_text_for_embedding weather_info) = None
   \<and> map_of (metadata_store (fresh_service failing_encoder)) ''/weather'' = None
   \<and> next_id_counter (fresh_service failing_encoder) = 0
   \<and> next_id_counter
        (add_or_update_service (fresh_service failing_encoder) ''/weather'' weather_info True) = 1"
proof -
  have em: "embedding_model (fresh_service failing_encoder) = Some failing_encoder"
    and ix: "faiss_index (fresh_service failing_encoder) = Some empty_index"
    and st: "metadata_store (fresh_service failing_encoder) = []"
    and ct: "next_id_counter (fresh_service failing_encoder) = 0"
    by (simp_all add: fresh_service_def)
  have fails: "failing_encoder (get_text_for_embedding weather_info) = None"
    by (simp add: failing_encoder_def)
  have "add_or_update_service (fresh_service failing_encoder) ''/weather'' weather_info True =
      (fresh_service failing_encoder)\<lparr>next_id_counter := 1,
         encode_calls := encode_calls (fresh_service failing_encoder) @ [get_text_for_embedding weather_info]\<rparr>"
    using service_encode_fails [OF em ix fails, of "''/weather''" True] by (simp add: st ct)
  then show ?thesis by (simp add: fails st ct)
qed

lemma save_data_fields:
  "metadata_store (save_data s) = metadata_store s"
  "faiss_index (save_data s) = faiss_index s"
  "next_id_counter (save_data s) = next_id_counter s"
  "encode_calls (save_data s) = encode_calls s"
  "embedding_model (save_data s) = embedding_model s"
  by (simp_all add: save_data_def split: option.splits)

text \<open>
  C3. Upserting a path that the store holds, with a payload whose text is the stored
  text, does not call the embedder, keeps the entry's id and text, and leaves the vector
  index and the id counter as they are. When moreover the stored payload equals the new
  one (for a server: the payload with the new enabled flag), nothing is written and
  nothing is saved: the state is the same.
\<close>

theorem reupsert_unchanged:
  assumes "map_of (metadata_store s) path = Some e"
  shows "(text_for_embedding e = get_text_for_embedding info \<longrightarrow>
            encode_calls (add_or_update_service s path info en) = encode_calls s
          \<and> faiss_index (add_or_update_service s path info en) = faiss_index s
          \<and> next_id_counter (add_or_update_service s path info en) = next_id_counter s
          \<and> (\<exists>e'. map_of (metadata_store (add_or_update_service s path info en)) path = Some e'
                 \<and> entry_id e' = entry_id e \<and> text_for_embedding e' = text_for_embedding e)
          \<and> (full_server_info e = Some (info\<lparr>si_is_enabled := Some en\<rparr>) \<longrightarrow>
                add_or_update_service s path info en = s))
       \<and> (text_for_embedding e = get_text_for_agent acard \<longrightarrow>
            encode_calls (add_or_update_agent s path acard en) = encode_calls s
          \<and> faiss_index (add_or_update_agent s path acard en) = faiss_index s
          \<and> next_id_counter (add_or_update_agent s path acard en) = next_id_counter s
          \<and> (\<exists>e'. map_of (metadata_store (add_or_update_agent s path acard en)) path = Some e'
                 \<and> entry_id e' = entry_id e \<and> text_for_embedding e' = text_for_embedding e)
          \<and> (full_agent_card e = Some acard \<longrightarrow> add_or_update_agent s path acard en = s))"
proof (intro conjI impI)
  assume same: "text_for_embedding e = get_text_for_embedding info"
  note eq = service_same_text [OF assms same, of en]
  show "encode_calls (add_or_update_service s path info en) = encode_calls s"
    and "faiss_index (add_or_update_service s path info en) = faiss_index s"
    and "next_id_counter (add_or_update_service s path info en) = next_id_counter s"
    by (simp_all add: eq save_data_fields)
  show "\<exists>e'. map_of (metadata_store (add_or_update_service s path info en)) path = Some e'
          \<and> entry_id e' = entry_id e \<and> text_for_embedding e' = text_for_embedding e"
    using assms by (simp add: eq save_data_fields update_conv')
  show "add_or_update_service s path info en = s"
    if "full_server_info e = Some (info\<lparr>si_is_enabled := Some en\<rparr>)"
    using that by (simp add: eq)
next
  assume same: "text_for_embedding e = get_text_for_agent acard"
  note eq = agent_same_text [OF assms same, of en]
  show "encode_calls (add_or_update_agent s path acard en) = encode_calls s"
    and "faiss_index (add_or_update_agent s path acard en) = faiss_index s"
    and "next_id_counter (add_or_update_agent s path acard en) = next_id_counter s"
    by (simp_all add: eq save_data_fields)
  show "\<exists>e'. map_of (metadata_store (add_or_update_agent s path acard en)) path = Some e'
          \<and> entry_id e' = entry_id e \<and> text_for_embedding e' = text_for_embedding e"
    using assms by (simp add: eq save_data_fields update_conv')
  show "add_or_update_agent s path acard en = s" if "full_agent_card e = Some acard"
    using that by (simp add: eq)
qed

theorem reupsert_unchanged_witness:
  "add_or_update_service weather_service ''/weather'' weather_info True = weather_service
   \<and> encode_calls (add_or_update_service weather_service ''/weather'' weather_info False) = []
   \<and> faiss_index (add_or_update_service weather_service ''/weather'' weather_info False)
       = Some \<lparr>dim = 2, vectors = [(0, [1, 0])]\<rparr>"
proof -
  have st: "map_of (metadata_store weather_service) ''/weather'' = Some weather_entry"
    by (simp add: weather_service_def)
  have same_text: "text_for_embedding weather_entry = get_text_for_embedding weather_info"
    by (simp add: weather_entry_def)
  have same_info: "full_server_info weather_entry = Some (weather_info\<lparr>si_is_enabled := Some True\<rparr>)"
    by (simp add: weather_entry_def full_server_info_def)
  have calls: "encode_calls weather_service = []"
    and ix: "faiss_index weather_service = Some \<lparr>dim = 2, vectors = [(0, [1, 0])]\<rparr>"
    by (simp_all add: weather_service_def)
  from reupsert_unchanged [OF st, of weather_info True bot_card] same_text same_info
  have a: "add_or_update_service weather_service ''/weather'' weather_info True = weather_service"
    by blast
  from reupsert_unchanged [OF st, of weather_info False bot_card] same_text
  have b: "encode_calls (add_or_update_service weather_service ''/weather'' weather_info False)
       = encode_calls weather_service
     \<and> faiss_index (add_or_update_service weather_service ''/weather'' weather_info False)
       = faiss_index weather_service"
    by blast
  from a b show ?thesis by (simp add: calls ix)
qed

section \<open>The id invariant\<close>

lemma ids_update_present:
  "map_of al k = Some e \<Longrightarrow> entry_id v = entry_id e \<Longrightarrow>
   map (\<lambda>pe. entry_id (snd pe)) (AList.update k v al) = map (\<lambda>pe. entry_id (snd pe)) al"
  by (induction al) (auto split: if_splits)

lemma service_effect: "upsert_effect s path (add_or_update_service s path info en)"
  unfolding upsert_effect_def add_or_update_service_def assign_id_def embed_and_add_def Let_def
  by (auto simp: save_data_fields add_with_ids_def split: option.splits sum.splits if_splits)

lemma agent_effect: "upsert_effect s path (add_or_update_agent s path acard en)"
  unfolding upsert_effect_def add_or_update_agent_def assign_id_def embed_and_add_def Let_def
  by (auto simp: save_data_fields add_with_ids_def split: option.splits sum.splits if_splits)

lemma ids_ok_upsert:
  assumes "ids_ok s" and "upsert_effect s path s'"
  shows "ids_ok s'"
proof -
  from assms(2) consider
      (same) "metadata_store s' = metadata_store s" "next_id_counter s \<le> next_id_counter s'"
    | (present) e e' where "metadata_store s' = AList.update path e' (metadata_store s)"
        "map_of (metadata_store s) path = Some e" "entry_id e' = entry_id e"
        "next_id_counter s' = next_id_counter s"
    | (absent) e' where "metadata_store s' = AList.update path e' (metadata_store s)"
        "map_of (metadata_store s) path = None" "entry_id e' = next_id_counter s"
        "next_id_counter s' = next_id_counter s + 1"
    unfolding upsert_effect_def by (auto split: option.splits)
  then show ?thesis
  proof cases
    case same
    with assms(1) show ?thesis by (fastforce simp: ids_ok_def live_ids_def)
  next
    case present
    then have "live_ids s' = live_ids s"
      by (simp add: live_ids_def ids_update_present)
    with assms(1) present show ?thesis by (simp add: ids_ok_def)
  next
    case absent
    then have "live_ids s' = live_ids s @ [next_id_counter s]"
      by (simp add: live_ids_def update_absent)
    with assms(1) absent show ?thesis by (fastforce simp: ids_ok_def)
  qed
qed

lemma ids_ok_remove:
  assumes "ids_ok s"
  shows "ids_ok (snd (remove_service s path))"
proof (cases "map_of (metadata_store s) path = None")
  case True
  with assms show ?thesis by (simp add: remove_service_def remove_body_absent)
next
  case False
  have "live_ids (snd (remove_service s path)) =
      map (\<lambda>pe. entry_id (snd pe)) (filter (\<lambda>pe. path \<noteq> fst pe) (metadata_store s))"
    using False
    by (simp add: remove_service_def remove_body_present live_ids_def save_data_fields
        AList.delete_eq case_prod_unfold)
  moreover have "next_id_counter (snd (remove_service s path)) = next_id_counter s"
    using False by (simp add: remove_service_def remove_body_present save_data_fields)
  ultimately show ?thesis
    using assms by (auto simp: ids_ok_def live_ids_def distinct_map_filter)
qed

lemma ids_ok_step: "ids_ok s \<Longrightarrow> ids_ok (apply_operation s op)"
proof (cases op)
  case (Upsert_service p i en)
  assume "ids_ok s"
  then show ?thesis using Upsert_service by (simp add: ids_ok_upsert [OF _ service_effect])
next
  case (Upsert_agent p c en)
  assume "ids_ok s"
  then show ?thesis using Upsert_agent by (simp add: ids_ok_upsert [OF _ agent_effect])
next
  case (Remove_service p)
  assume "ids_ok s"
  then show ?thesis using Remove_service by (simp add: ids_ok_remove)
next
  case (Remove_agent p)
  assume "ids_ok s"
  then show ?thesis using Remove_agent ids_ok_remove [of s p]
    by (simp add: remove_agent_def remove_service_def)
next
  case (Remove_entity p)
  assume "ids_ok s"
  then show ?thesis using Remove_entity ids_ok_remove [of s p]
    by (simp add: remove_entity_def remove_agent_def remove_service_def split: sum.splits)
qed

lemma reachable_ids_ok: "reachable s \<Longrightarrow> ids_ok s"
proof (induction rule: reachable.induct)
  case (empty s)
  then show ?case by (simp add: ids_ok_def live_ids_def)
next
  case (step s op)
  then show ?case by (simp add: ids_ok_step)
next
  case (client s em)
  then show ?case by (simp add: ids_ok_def live_ids_def)
qed

lemma reachable_run: "reachable s \<Longrightarrow> reachable (run s ops)"
  unfolding run_def by (induction ops arbitrary: s) (auto intro: reachable.step)

text \<open>
  C2. In every state reached from an empty store by upserts and removals, whatever the
  embeddings client does, the ids of the entries of the metadata store are pairwise
  distinct and each is below the id counter.
\<close>

theorem reachable_ids_unique:
  assumes "reachable s"
  shows "distinct (live_ids s)
       \<and> (\<forall>i \<in> set (live_ids s). i < next_id_counter s)
       \<and> (\<forall>p q e f. map_of (metadata_store s) p = Some e \<and> map_of (metadata_store s) q = Some f
              \<and> p \<noteq> q \<longrightarrow> entry_id e \<noteq> entry_id f)
       \<and> (\<forall>p e. map_of (metadata_store s) p = Some e \<longrightarrow> entry_id e < next_id_counter s)"
proof -
  from assms have ok: "ids_ok s" by (rule reachable_ids_ok)
  then have d: "distinct (live_ids s)" and b: "\<forall>i \<in> set (live_ids s). i < next_id_counter s"
    by (simp_all add: ids_ok_def)
  have inj: "inj_on (\<lambda>pe. entry_id (snd pe)) (set (metadata_store s))"
    using d by (simp add: live_ids_def distinct_map)
  have pair: "entry_id e \<noteq> entry_id f"
    if "map_of (metadata_store s) p = Some e" "map_of (metadata_store s) q = Some f" "p \<noteq> q"
    for p q e f
  proof
    assume eq: "entry_id e = entry_id f"
    from that have "(p, e) \<in> set (metadata_store s)" "(q, f) \<in> set (metadata_store s)"
      by (auto dest: map_of_SomeD)
    with inj eq have "(p, e) = (q, f)"
      using inj_onD [of "\<lambda>pe. entry_id (snd pe)" "set (metadata_store s)" "(p, e)" "(q, f)"]
      by simp
    with that(3) show False by simp
  qed
  have below: "entry_id e < next_id_counter s" if "map_of (metadata_store s) p = Some e" for p e
  proof -
    from that have "(p, e) \<in> set (metadata_store s)" by (rule map_of_SomeD)
    then have "entry_id e \<in> set (live_ids s)" by (force simp: live_ids_def)
    with b show ?thesis by blast
  qed
  from d b pair below show ?thesis by blast
qed

lemma busy_ids: "live_ids busy_service = [1, 2]"
  by code_simp

lemma busy_counter: "next_id_counter busy_service = 3"
  by code_simp

theorem reachable_ids_unique_witness:
  "reachable busy_service \<and> distinct (live_ids busy_service)
   \<and> live_ids busy_service = [1, 2] \<and> next_id_counter busy_service = 3"
proof -
  have "reachable (fresh_service unit_encoder)"
    by (rule reachable.empty) (simp_all add: fresh_service_def)
  then have r: "reachable busy_service"
    unfolding busy_service_def by (rule reachable_run)
  from reachable_ids_unique [OF r] have "distinct (live_ids busy_service)" by blast
  with r show ?thesis by (simp add: busy_ids busy_counter)
qed

section \<open>Ids of fresh paths\<close>

lemma apply_upsert_new:
  assumes "embedding_model s = Some enc" and "faiss_index s = Some idx"
    and "upsert_path op = Some p" and "upsert_text op = Some t"
    and "enc t = Some v" and "length v = dim idx"
    and "map_of (metadata_store s) p = None"
  shows "\<exists>e' idx'. embedding_model (apply_operation s op) = Some enc
         \<and> faiss_index (apply_operation s op) = Some idx' \<and> dim idx' = dim idx
         \<and> next_id_counter (apply_operation s op) = next_id_counter s + 1
         \<and> metadata_store (apply_operation s op) = metadata_store s @ [(p, e')]
         \<and> entry_id e' = next_id_counter s"
proof (cases op)
  case (Upsert_service p' i en)
  with assms show ?thesis
    by (simp add: add_or_update_service_def assign_id_def embed_and_add_def add_with_ids_def
        Let_def save_data_fields update_absent)
next
  case (Upsert_agent p' c en)
  with assms show ?thesis
    by (simp add: add_or_update_agent_def assign_id_def embed_and_add_def add_with_ids_def
        Let_def save_data_fields update_absent)
qed (use assms in simp_all)

lemma fresh_upserts_invariant:
  assumes "embedding_model s = Some enc" and "faiss_index s = Some idx"
    and "metadata_store s = []" and "next_id_counter s = 0"
  shows "(\<forall>op \<in> set ops. \<exists>p t v. upsert_path op = Some p \<and> upsert_text op = Some t
             \<and> enc t = Some v \<and> length v = dim idx) \<Longrightarrow>
         distinct (map upsert_path ops) \<Longrightarrow>
         (\<exists>idx'. faiss_index (run s ops) = Some idx' \<and> dim idx' = dim idx)
         \<and> embedding_model (run s ops) = Some enc
         \<and> next_id_counter (run s ops) = int (length ops)
         \<and> map (\<lambda>pe. (Some (fst pe), entry_id (snd pe))) (metadata_store (run s ops))
             = zip (map upsert_path ops) (map int [0..<length ops])"
proof (induction ops rule: rev_induct)
  case Nil
  with assms show ?case by (simp add: run_def)
next
  case (snoc op ops)
  let ?s = "run s ops"
  from snoc.prems have pre: "\<forall>op \<in> set ops. \<exists>p t v. upsert_path op = Some p
      \<and> upsert_text op = Some t \<and> enc t = Some v \<and> length v = dim idx"
    and dist: "distinct (map upsert_path ops)" and new: "upsert_path op \<notin> set (map upsert_path ops)"
    by auto
  from snoc.IH [OF pre dist] obtain idx' where
    ix: "faiss_index ?s = Some idx'" and dm: "dim idx' = dim idx"
    and em: "embedding_model ?s = Some enc"
    and ct: "next_id_counter ?s = int (length ops)"
    and st: "map (\<lambda>pe. (Some (fst pe), entry_id (snd pe))) (metadata_store ?s)
             = zip (map upsert_path ops) (map int [0..<length ops])"
    by blast
  from snoc.prems obtain p t v where
    op: "upsert_path op = Some p" "upsert_text op = Some t" "enc t = Some v" "length v = dim idx"
    by auto
  have "map fst (map (\<lambda>pe. (Some (fst pe), entry_id (snd pe))) (metadata_store ?s))
      = map upsert_path ops"
    unfolding st by simp
  then have keys: "map (\<lambda>pe. Some (fst pe)) (metadata_store ?s) = map upsert_path ops"
    by (simp add: comp_def)
  have "p \<notin> fst ` set (metadata_store ?s)"
  proof
    assume "p \<in> fst ` set (metadata_store ?s)"
    then have "Some p \<in> set (map (\<lambda>pe. Some (fst pe)) (metadata_store ?s))" by force
    with keys new op(1) show False by simp
  qed
  then have absent: "map_of (metadata_store ?s) p = None"
    by (simp add: map_of_eq_None_iff)
  from apply_upsert_new [OF em ix op(1,2,3) _ absent] op(4) dm
  obtain e' idx2 where post:
    "embedding_model (apply_operation ?s op) = Some enc"
    "faiss_index (apply_operation ?s op) = Some idx2" "dim idx2 = dim idx"
    "next_id_counter (apply_operation ?s op) = next_id_counter ?s + 1"
    "metadata_store (apply_operation ?s op) = metadata_store ?s @ [(p, e')]"
    "entry_id e' = next_id_counter ?s"
    by auto
  have unfold_run: "run s (ops @ [op]) = apply_operation ?s op"
    by (simp add: run_def)
  show ?case
    unfolding unfold_run using post ct st op(1) by simp
qed

text \<open>
  C5. From an empty store, a sequence of upserts of pairwise distinct paths, each of whose
  texts the embedder encodes into a vector of the index's dimension, ends with the id
  counter at the number of upserts, and the store lists the paths in upsert order with
  the ids 0, 1, 2, ... in that order.
\<close>

theorem fresh_upserts_number_ids:
  assumes "embedding_model s = Some enc" and "faiss_index s = Some idx"
    and "metadata_store s = []" and "next_id_counter s = 0"
    and "\<forall>op \<in> set ops. \<exists>p t v. upsert_path op = Some p \<and> upsert_text op = Some t
             \<and> enc t = Some v \<and> length v = dim idx"
    and "distinct (map upsert_path ops)"
  shows "next_id_counter (run s ops) = int (length ops)
       \<and> map (\<lambda>pe. (Some (fst pe), entry_id (snd pe))) (metadata_store (run s ops))
           = zip (map upsert_path ops) (map int [0..<length ops])
       \<and> live_ids (run s ops) = map int [0..<length ops]"
proof -
  note inv = fresh_upserts_invariant [OF assms]
  have "map snd (map (\<lambda>pe. (Some (fst pe), entry_id (snd pe))) (metadata_store (run s ops)))
      = map snd (zip (map upsert_path ops) (map int [0..<length ops]))"
    using inv by simp
  then have "live_ids (run s ops) = map int [0..<length ops]"
    by (simp add: live_ids_def comp_def)
  with inv show ?thesis by simp
qed

theorem fresh_upserts_number_ids_witness:
  "next_id_counter (run (fresh_service unit_encoder) two_upserts) = 2
   \<and> live_ids (run (fresh_service unit_encoder) two_upserts) = [0, 1]
   \<and> map fst (metadata_store (run (fresh_service unit_encoder) two_upserts))
       = [''/weather'', ''/agents/bot1'']"
proof -
  have em: "embedding_model (fresh_service unit_encoder) = Some unit_encoder"
    and ix: "faiss_index (fresh_service unit_encoder) = Some empty_index"
    and st: "metadata_store (fresh_service unit_encoder) = []"
    and ct: "next_id_counter (fresh_service unit_encoder) = 0"
    by (simp_all add: fresh_service_def)
  have ok: "\<forall>op \<in> set two_upserts. \<exists>p t v. upsert_path op = Some p \<and> upsert_text op = Some t
             \<and> unit_encoder t = Some v \<and> length v = dim empty_index"
    by (simp add: two_upserts_def unit_encoder_def empty_index_def)
  have dist: "distinct (map upsert_path two_upserts)"
    by (simp add: two_upserts_def)
  have len: "length two_upserts = 2" by (simp add: two_upserts_def)
  have upto: "[0..<2] = [0, 1]" by (simp add: upt_rec)
  note inst = fresh_upserts_number_ids [OF em ix st ct ok dist]
  from inst have a: "next_id_counter (run (fresh_service unit_encoder) two_upserts) = 2"
    by (simp add: len)
  from inst have b: "live_ids (run (fresh_service unit_encoder) two_upserts) = [0, 1]"
    by (simp add: len upto)
  from inst have "map fst (map (\<lambda>pe. (Some (fst pe), entry_id (snd pe)))
        (metadata_store (run (fresh_service unit_encoder) two_upserts)))
      = map fst (zip (map upsert_path two_upserts) (map int [0..<length two_upserts]))"
    by simp
  then have "map (\<lambda>pe. Some (fst pe)) (metadata_store (run (fresh_service unit_encoder) two_upserts))
      = [Some ''/weather'', Some ''/agents/bot1'']"
    by (simp add: comp_def len upto two_upserts_def)
  then have c: "map fst (metadata_store (run (fresh_service unit_encoder) two_upserts))
       = [''/weather'', ''/agents/bot1'']"
    by (auto simp: map_eq_Cons_conv)
  from a b c show ?thesis by blast
qed

section \<open>Properties of the search\<close>

lemma strip_empty_iff: "strip s = [] \<longleftrightarrow> (\<forall>c \<in> set s. is_space c)"
proof
  assume "strip s = []"
  then have "dropWhile is_space (rev (dropWhile is_space s)) = []"
    by (simp add: strip_def)
  then have all: "\<forall>c \<in> set (dropWhile is_space s). is_space c"
    by (simp add: dropWhile_eq_Nil_conv)
  show "\<forall>c \<in> set s. is_space c"
  proof (cases "dropWhile is_space s")
    case Nil
    then show ?thesis by (simp add: dropWhile_eq_Nil_conv)
  next
    case (Cons c cs)
    then have "\<not> is_space c" by (metis hd_dropWhile list.sel(1) list.distinct(1))
    moreover from Cons all have "is_space c" by simp
    ultimately show ?thesis by simp
  qed
next
  assume "\<forall>c \<in> set s. is_space c"
  then have "dropWhile is_space s = []" by (simp add: dropWhile_eq_Nil_conv)
  then show "strip s = []" unfolding strip_def by (simp only: rev.simps dropWhile.simps)
qed

text \<open>
  C8. A query that is empty or consists of whitespace only is refused with a
  \<^verbatim>\<open>ValueError\<close>, whatever the entity types, the limit and the state of the service
  are. Nothing else happens: the state, with the trace of the encode calls, is as before.
\<close>

theorem blank_query_rejected:
  assumes "\<forall>c \<in> set query. is_space c"
  shows "search_mixed knn s query entity_types max_results = (Inl ValueError, s)"
proof -
  from assms have "strip query = []" by (simp add: strip_empty_iff)
  then show ?thesis by (simp add: search_mixed_def)
qed

theorem blank_query_rejected_witness:
  "search_mixed first_vectors weather_service [CHR '' '', CHR 0x09] None 5
     = (Inl ValueError, weather_service)
   \<and> search_mixed first_vectors weather_service [] (Some [''tool'']) 0
     = (Inl ValueError, weather_service)
   \<and> encode_calls (snd (search_mixed first_vectors weather_service [CHR '' '', CHR 0x09] None 5))
     = encode_calls weather_service"
proof -
  have blank: "\<forall>c \<in> set [CHR '' '', CHR 0x09]. is_space c"
    by (simp add: is_space_def)
  have none: "\<forall>c \<in> set ([] :: string). is_space c"
    by simp
  from blank_query_rejected [OF blank, of first_vectors weather_service None 5]
    blank_query_rejected [OF none, of first_vectors weather_service "Some [''tool'']" 0]
  show ?thesis by simp
qed

lemma hit_results_paths:
  assumes "map_of m path = None"
  shows "x \<in> set (fst (hit_results m entity_filter query hit)) \<Longrightarrow> sr_path x \<noteq> path"
    and "y \<in> set (fst (snd (hit_results m entity_filter query hit))) \<Longrightarrow> tr_server_path y \<noteq> path"
    and "z \<in> set (snd (snd (hit_results m entity_filter query hit))) \<Longrightarrow> ar_path z \<noteq> path"
  using assms
  by (auto simp: hit_results_def server_hit_def agent_hit_def Let_def
      split: option.splits if_splits)

lemma set_sorted_prefix: "set (take n (sort_descending key xs)) \<subseteq> set xs"
  using set_take_subset [of n "sort_descending key xs"] by (simp add: sort_descending_def)

lemma search_mixed_paths:
  assumes absent: "map_of (metadata_store s) path = None"
    and found: "search_mixed knn s query entity_types max_results = (Inr res, s')"
  shows "path \<notin> sr_path ` set (servers res)
       \<and> path \<notin> tr_server_path ` set (tools res)
       \<and> path \<notin> ar_path ` set (agents res)"
proof (cases "\<exists>enc idx v. embedding_model s = Some enc \<and> faiss_index s = Some idx
      \<and> ntotal idx \<noteq> 0 \<and> enc (strip query) = Some v")
  case False
  with found show ?thesis
    by (auto simp: search_mixed_def Let_def split: if_splits option.splits)
next
  case True
  then obtain enc idx v where em: "embedding_model s = Some enc" and ix: "faiss_index s = Some idx"
    and nz: "ntotal idx \<noteq> 0" and ev: "enc (strip query) = Some v"
    by blast
  define limit where "limit = nat (max 1 (min max_results 50))"
  define hits where "hits = knn idx v (min limit (ntotal idx))"
  define found_list where
    "found_list = map (hit_results (metadata_store s) (entity_filter_of entity_types) query) hits"
  from found em ix nz ev have res:
    "res = \<lparr>servers = take limit (sort_descending sr_relevance_score (concat (map fst found_list))),
            tools = take limit (sort_descending tr_relevance_score
                      (concat (map (\<lambda>r. fst (snd r)) found_list))),
            agents = take limit (sort_descending ar_relevance_score
                      (concat (map (\<lambda>r. snd (snd r)) found_list)))\<rparr>"
    by (auto simp: search_mixed_def Let_def limit_def hits_def found_list_def split: if_splits)
  have a: "path \<notin> sr_path ` set (concat (map fst found_list))"
    using hit_results_paths(1) [OF absent] by (fastforce simp: found_list_def)
  have b: "path \<notin> tr_server_path ` set (concat (map (\<lambda>r. fst (snd r)) found_list))"
    using hit_results_paths(2) [OF absent] by (fastforce simp: found_list_def)
  have c: "path \<notin> ar_path ` set (concat (map (\<lambda>r. snd (snd r)) found_list))"
    using hit_results_paths(3) [OF absent] by (fastforce simp: found_list_def)
  have "set (servers res) \<subseteq> set (concat (map fst found_list))"
    and "set (tools res) \<subseteq> set (concat (map (\<lambda>r. fst (snd r)) found_list))"
    and "set (agents res) \<subseteq> set (concat (map (\<lambda>r. snd (snd r)) found_list))"
    unfolding res search_results.simps by (rule set_sorted_prefix)+
  with a b c show ?thesis by blast
qed

lemma upsert_effect_absent:
  assumes "upsert_effect s p s'" and "p \<noteq> path" and "map_of (metadata_store s) path = None"
  shows "map_of (metadata_store s') path = None"
  using assms by (auto simp: upsert_effect_def update_conv')

lemma remove_absent:
  assumes "map_of (metadata_store s) path = None"
  shows "map_of (metadata_store (snd (remove_service s p))) path = None"
  using assms
  by (cases "map_of (metadata_store s) p = None")
     (simp_all add: remove_service_def remove_body_absent remove_body_present save_data_fields
        delete_conv')

lemma remove_makes_absent:
  "map_of (metadata_store (snd (remove_service s path))) path = None"
  by (cases "map_of (metadata_store s) path = None")
     (simp_all add: remove_service_def remove_body_absent remove_body_present save_data_fields
        delete_conv')

lemma removes_agree:
  "snd (remove_agent s p) = snd (remove_service s p)"
  "snd (remove_entity s p) = snd (remove_service s p)"
  by (simp_all add: remove_agent_def remove_service_def remove_entity_def split: sum.splits)

lemma apply_operation_absent:
  assumes "upsert_path op \<noteq> Some path" and "map_of (metadata_store s) path = None"
  shows "map_of (metadata_store (apply_operation s op)) path = None"
proof (cases op)
  case (Upsert_service p i en)
  with assms show ?thesis
    using upsert_effect_absent [OF service_effect, of p path s i en] by simp
next
  case (Upsert_agent p c en)
  with assms show ?thesis
    using upsert_effect_absent [OF agent_effect, of p path s c en] by simp
qed (use assms in \<open>simp_all add: removes_agree remove_absent\<close>)

lemma run_absent:
  assumes "\<forall>op \<in> set ops. upsert_path op \<noteq> Some path"
    and "map_of (metadata_store s) path = None"
  shows "map_of (metadata_store (run s ops)) path = None"
  using assms unfolding run_def
  by (induction ops arbitrary: s) (simp_all add: apply_operation_absent)

text \<open>
  C7. After a path has been removed (by \<^verbatim>\<open>remove_service\<close>, \<^verbatim>\<open>remove_agent\<close> or
  \<^verbatim>\<open>remove_entity\<close>) and whatever operations follow, as long as none of them upserts
  that path, no result of \<^verbatim>\<open>search_mixed\<close> names it: no server and no agent has it as
  its path and no tool as its server path. The index may still hold the vector of the
  removed entry; its id is the id of no entry, and the hit is skipped.
\<close>

theorem removed_path_not_found:
  assumes "rm \<in> {Remove_service path, Remove_agent path, Remove_entity path}"
    and "\<forall>op \<in> set ops. upsert_path op \<noteq> Some path"
    and "search_mixed knn (run s (rm # ops)) query entity_types max_results = (Inr res, s')"
  shows "path \<notin> sr_path ` set (servers res)
       \<and> path \<notin> tr_server_path ` set (tools res)
       \<and> path \<notin> ar_path ` set (agents res)"
proof -
  from assms(1) have "apply_operation s rm = snd (remove_service s path)"
    by (auto simp: removes_agree)
  then have "map_of (metadata_store (apply_operation s rm)) path = None"
    by (simp add: remove_makes_absent)
  then have "map_of (metadata_store (run (apply_operation s rm) ops)) path = None"
    by (rule run_absent [OF assms(2)])
  then have "map_of (metadata_store (run s (rm # ops))) path = None"
    by (simp add: run_def)
  then show ?thesis using assms(3) by (rule search_mixed_paths)
qed

theorem removed_path_not_found_witness:
  "faiss_index after_removal = Some \<lparr>dim = 2, vectors = [(0, [1, 0]), (1, [1, 0])]\<rparr>
   \<and> (\<exists>res s'. search_mixed first_vectors after_removal ''forecast'' None 5 = (Inr res, s')
         \<and> ''/weather'' \<notin> sr_path ` set (servers res)
         \<and> ''/weather'' \<notin> tr_server_path ` set (tools res)
         \<and> ''/weather'' \<notin> ar_path ` set (agents res))"
proof -
  have ix: "faiss_index after_removal = Some \<lparr>dim = 2, vectors = [(0, [1, 0]), (1, [1, 0])]\<rparr>"
    by code_simp
  have ok: "\<not> isl (fst (search_mixed first_vectors after_removal ''forecast'' None 5))"
    by code_simp
  then obtain res s' where
    found: "search_mixed first_vectors after_removal ''forecast'' None 5 = (Inr res, s')"
    by (cases "search_mixed first_vectors after_removal ''forecast'' None 5";
        cases "fst (search_mixed first_vectors after_removal ''forecast'' None 5)") auto
  have rm: "Remove_service ''/weather''
      \<in> {Remove_service ''/weather'', Remove_agent ''/weather'', Remove_entity ''/weather''}"
    by simp
  have others: "\<forall>op \<in> set [Upsert_agent ''/agents/bot1'' bot_card False].
      upsert_path op \<noteq> Some ''/weather''"
    by simp
  from removed_path_not_found [OF rm others found [unfolded after_removal_def]] found ix
  show ?thesis by blast
qed

section \<open>Properties of the tool matcher\<close>

lemma split_nonword_word_chars:
  "t \<in> set (split_nonword cur s) \<Longrightarrow> \<forall>c \<in> set cur. is_word_char c \<Longrightarrow>
   \<forall>c \<in> set t. is_word_char c"
proof (induction cur s rule: split_nonword.induct)
  case (1 cur)
  then show ?case by simp
next
  case (2 cur c cs)
  show ?case
  proof (cases "is_word_char c")
    case True
    with 2 show ?thesis by simp
  next
    case False
    with "2.prems"(1) have "t = rev cur \<or> t \<in> set (split_nonword [] (dropWhile (\<lambda>d. \<not> is_word_char d) cs))"
      by simp
    then show ?thesis
    proof
      assume "t = rev cur"
      with "2.prems"(2) show ?thesis by simp
    next
      assume "t \<in> set (split_nonword [] (dropWhile (\<lambda>d. \<not> is_word_char d) cs))"
      with "2.IH"(2) [OF False] show ?thesis by simp
    qed
  qed
qed

lemma query_tokens_word_chars:
  assumes "token \<in> set (query_tokens query)"
  shows "token \<noteq> []" and "\<forall>c \<in> set token. is_word_char c"
  using assms split_nonword_word_chars [of token "[]" "lower query"]
  by (auto simp: query_tokens_def)

lemma word_char_not_space: "is_word_char c \<Longrightarrow> \<not> is_space c"
  by (auto simp: is_word_char_def is_space_def Let_def)

lemma occurs_in_subset: "occurs_in token hay \<Longrightarrow> set token \<subseteq> set hay"
proof (induction hay)
  case Nil
  then show ?case by simp
next
  case (Cons c cs)
  from Cons.prems have "prefix token (c # cs) \<or> occurs_in token cs" by simp
  then show ?case
  proof
    assume "prefix token (c # cs)"
    then show ?thesis by (rule set_mono_prefix)
  next
    assume "occurs_in token cs"
    then have "set token \<subseteq> set cs" by (rule Cons.IH)
    then show ?thesis by auto
  qed
qed

lemma token_occurrence_not_blank:
  assumes "token \<in> set (query_tokens query)" and "occurs_in token hay"
  shows "strip hay \<noteq> []"
proof -
  from query_tokens_word_chars [OF assms(1)] obtain c where "c \<in> set token" "is_word_char c"
    by (cases token) auto
  with occurs_in_subset [OF assms(2)] have "c \<in> set hay" "\<not> is_space c"
    by (auto dest: word_char_not_space)
  then show ?thesis by (auto simp: strip_empty_iff)
qed

lemma matches_found_pos:
  "matches_found tokens t \<noteq> 0 \<longleftrightarrow> (\<exists>token \<in> set tokens. occurs_in token (searchable_text t))"
  by (auto simp: matches_found_def filter_empty_conv)

lemma tool_matches_iff:
  "tool_matches (query_tokens query) t \<longleftrightarrow>
   (\<exists>token \<in> set (query_tokens query). occurs_in token (searchable_text t))"
proof
  assume "tool_matches (query_tokens query) t"
  then have "matches_found (query_tokens query) t \<noteq> 0" by (simp add: tool_matches_def)
  then show "\<exists>token \<in> set (query_tokens query). occurs_in token (searchable_text t)"
    by (simp only: matches_found_pos)
next
  assume found: "\<exists>token \<in> set (query_tokens query). occurs_in token (searchable_text t)"
  then have "matches_found (query_tokens query) t \<noteq> 0" by (simp only: matches_found_pos)
  moreover from found obtain token where
      "token \<in> set (query_tokens query)" "occurs_in token (searchable_text t)"
    by blast
  then have "strip (searchable_text t) \<noteq> []"
    by (rule token_occurrence_not_blank)
  ultimately show "tool_matches (query_tokens query) t" by (simp add: tool_matches_def)
qed

lemma sort_descending_sorted: "sorted_wrt (\<ge>) (map key (sort_descending key xs))"
proof -
  have "sorted (map (\<lambda>x. - key x) (sort_descending key xs))"
    by (simp add: sort_descending_def)
  then have "sorted_wrt (\<lambda>a b. - key a \<le> - key b) (sort_descending key xs)"
    by (simp add: sorted_map)
  then show ?thesis by (simp add: sorted_wrt_map)
qed

lemma mset_sort_descending: "mset (sort_descending key xs) = mset xs"
  by (simp add: sort_descending_def)

lemma extract_matching_tools_sorted:
  "sorted_wrt (\<ge>) (map tm_raw_score (extract_matching_tools query info))"
proof -
  let ?pairs = "map (\<lambda>t. (coverage (query_tokens query) t, match_of (query_tokens query) t))
      (filter (tool_matches (query_tokens query)) (get_or (si_tool_list info) []))"
  have "\<forall>p \<in> set (sort_descending fst ?pairs). tm_raw_score (snd p) = fst p"
    by (fastforce simp: sort_descending_def match_of_def)
  then have "map tm_raw_score (map snd (sort_descending fst ?pairs))
      = map fst (sort_descending fst ?pairs)"
    by simp
  then have "sorted_wrt (\<ge>) (map tm_raw_score (map snd (sort_descending fst ?pairs)))"
    by (simp only: sort_descending_sorted)
  then show ?thesis
    by (simp add: extract_matching_tools_def Let_def)
qed

lemma extract_matching_tools_mset:
  "mset (extract_matching_tools query info) =
   image_mset (match_of (query_tokens query))
     (filter_mset (tool_matches (query_tokens query)) (mset (get_or (si_tool_list info) [])))"
proof (cases "query_tokens query = []")
  case True
  then show ?thesis
    by (simp add: extract_matching_tools_def Let_def tool_matches_def matches_found_def)
next
  case False
  have "mset (map snd (sort_descending fst xs)) = image_mset snd (mset xs)"
    for xs :: "(real \<times> tool_match) list"
    by (metis mset_map mset_sort_descending)
  then show ?thesis
    by (simp add: extract_matching_tools_def Let_def False multiset.map_comp comp_def)
qed

text \<open>
  C4 (as amended). The tool matcher returns the tools whose lower-case searchable text
  (name, description and arguments) contains at least one token of the query, and only
  those; such a text is never blank. The results are in descending order of their raw
  score, and the raw score of a tool is the number of tokens of the query that occur in
  its searchable text, a token that the query repeats counting each time, divided by
  the number of tokens of the query. A query without tokens has no results.
\<close>

theorem matching_tools_result:
  "mset (extract_matching_tools query info) =
     image_mset (match_of (query_tokens query))
       (filter_mset (\<lambda>t. \<exists>token \<in> set (query_tokens query). occurs_in token (searchable_text t))
          (mset (get_or (si_tool_list info) [])))
   \<and> (\<forall>t. (\<exists>token \<in> set (query_tokens query). occurs_in token (searchable_text t)) \<longrightarrow>
          strip (searchable_text t) \<noteq> [])
   \<and> sorted_wrt (\<ge>) (map tm_raw_score (extract_matching_tools query info))
   \<and> (\<forall>t. tm_raw_score (match_of (query_tokens query) t) =
          fdiv (real (length (filter (\<lambda>token. occurs_in token (searchable_text t))
                                (query_tokens query))))
               (real (length (query_tokens query))))
   \<and> (query_tokens query = [] \<longrightarrow> extract_matching_tools query info = [])"
proof (intro conjI allI impI)
  have "tool_matches (query_tokens query) =
      (\<lambda>t. \<exists>token \<in> set (query_tokens query). occurs_in token (searchable_text t))"
    by (rule ext) (rule tool_matches_iff)
  then show "mset (extract_matching_tools query info) =
     image_mset (match_of (query_tokens query))
       (filter_mset (\<lambda>t. \<exists>token \<in> set (query_tokens query). occurs_in token (searchable_text t))
          (mset (get_or (si_tool_list info) [])))"
    using extract_matching_tools_mset [of query info] by simp
next
  fix t
  assume "\<exists>token \<in> set (query_tokens query). occurs_in token (searchable_text t)"
  then have "tool_matches (query_tokens query) t" by (simp only: tool_matches_iff)
  then show "strip (searchable_text t) \<noteq> []" by (simp add: tool_matches_def)
next
  show "sorted_wrt (\<ge>) (map tm_raw_score (extract_matching_tools query info))"
    by (rule extract_matching_tools_sorted)
next
  fix t
  show "tm_raw_score (match_of (query_tokens query) t) =
          fdiv (real (length (filter (\<lambda>token. occurs_in token (searchable_text t))
                                (query_tokens query))))
               (real (length (query_tokens query)))"
    by (simp add: match_of_def coverage_def matches_found_def)
next
  assume "query_tokens query = []"
  then show "extract_matching_tools query info = []"
    by (simp add: extract_matching_tools_def Let_def)
qed

lemma storm_tokens: "query_tokens ''Storm forecast: weather?'' = [''storm'', ''forecast'', ''weather'']"
  by code_simp

lemma storm_names:
  "map tm_tool_name (extract_matching_tools ''Storm forecast: weather?'' storm_info)
     = [''get_forecast'', ''alerts'']"
  by code_simp

lemma storm_scores:
  "map tm_raw_score (extract_matching_tools ''Storm forecast: weather?'' storm_info)
     = [fdiv 2 3, fdiv 1 3]"
  by code_simp

theorem matching_tools_result_witness:
  "query_tokens ''Storm forecast: weather?'' = [''storm'', ''forecast'', ''weather'']
   \<and> map tm_tool_name (extract_matching_tools ''Storm forecast: weather?'' storm_info)
       = [''get_forecast'', ''alerts'']
   \<and> map tm_raw_score (extract_matching_tools ''Storm forecast: weather?'' storm_info)
       = [fdiv 2 3, fdiv 1 3]
   \<and> sorted_wrt (\<ge>) (map tm_raw_score (extract_matching_tools ''Storm forecast: weather?'' storm_info))
   \<and> extract_matching_tools ''?!'' storm_info = []"
proof -
  note inst = matching_tools_result [of "''Storm forecast: weather?''" storm_info]
  then have sorted: "sorted_wrt (\<ge>)
      (map tm_raw_score (extract_matching_tools ''Storm forecast: weather?'' storm_info))"
    by blast
  have "query_tokens ''?!'' = []" by code_simp
  with matching_tools_result [of "''?!''" storm_info]
  have none: "extract_matching_tools ''?!'' storm_info = []" by blast
  show ?thesis
    by (intro conjI) (rule storm_tokens, rule storm_names, rule storm_scores, rule sorted, rule none)
qed

theorem matching_tools_distinct_counterexample:
  "query_tokens ''forecast forecast'' = [''forecast'', ''forecast'']
   \<and> map tm_raw_score (extract_matching_tools ''forecast forecast'' weather_info) = [1]
   \<and> si_tool_list weather_info = Some [forecast_tool]
   \<and> fdiv (real (length (remdups (filter (\<lambda>token. occurs_in token (searchable_text forecast_tool))
                                  (query_tokens ''forecast forecast'')))))
           (real (length (query_tokens ''forecast forecast''))) = 1 / 2
   \<and> (1 :: real) \<noteq> 1 / 2"
proof -
  have a: "query_tokens ''forecast forecast'' = [''forecast'', ''forecast'']" by code_simp
  have b: "map tm_raw_score (extract_matching_tools ''forecast forecast'' weather_info) = [1]"
    by code_simp
  have c: "si_tool_list weather_info = Some [forecast_tool]"
    by (simp add: weather_info_def forecast_tool_def)
  have d: "fdiv (real (length (remdups (filter (\<lambda>token. occurs_in token (searchable_text forecast_tool))
                                  (query_tokens ''forecast forecast'')))))
           (real (length (query_tokens ''forecast forecast''))) = 1 / 2"
    by code_simp
  have e: "(1 :: real) \<noteq> 1 / 2" by simp
  show ?thesis by (intro conjI) (rule a, rule b, rule c, rule d, rule e)
qed

section \<open>Properties of the relevance score\<close>

lemma float_exponent_bounds:
  assumes "0 < x"
  shows "2 powi float_exponent x \<le> x" and "x < 2 powi (float_exponent x + 1)"
proof -
  have "2 powi float_exponent x \<le> x \<and> x < 2 powi (float_exponent x + 1)"
  proof (cases "1 \<le> x")
    case True
    define n where "n = \<lfloor>x\<rfloor>"
    have n: "0 < n" "real_of_int n \<le> x" "x < real_of_int n + 1"
      using True by (auto simp: n_def)
    define b where "b = bitlen n"
    from bitlen_bounds [OF n(1)] have lo: "2 ^ nat (b - 1) \<le> n" and hi: "n < 2 ^ nat b"
      by (simp_all add: b_def)
    have b1: "1 \<le> b"
      using n(1) bitlen_eq_zero_iff [of n] bitlen_nonneg [of n] by (simp add: b_def)
    have e: "float_exponent x = b - 1"
      using True by (simp add: float_exponent_def n_def b_def)
    have "real_of_int (2 ^ nat (b - 1)) \<le> real_of_int n"
      using lo by (simp only: of_int_le_iff)
    then have "(2::real) ^ nat (b - 1) \<le> real_of_int n" by simp
    with n(2) have p1: "(2::real) ^ nat (b - 1) \<le> x" by linarith
    have "n + 1 \<le> 2 ^ nat b" using hi by simp
    then have "real_of_int (n + 1) \<le> real_of_int (2 ^ nat b)"
      by (simp only: of_int_le_iff)
    then have "real_of_int n + 1 \<le> (2::real) ^ nat b" by simp
    with n(3) have p2: "x < (2::real) ^ nat b" by linarith
    show ?thesis
      using p1 p2 b1 by (simp add: e power_int_def)
  next
    case False
    with assms have x1: "x < 1" by simp
    define m where "m = \<lceil>1 / x\<rceil>"
    have inv: "1 < 1 / x" using assms x1 by simp
    have m: "2 \<le> m" "1 / x \<le> real_of_int m" "real_of_int m - 1 < 1 / x"
    proof -
      show "2 \<le> m" using inv unfolding m_def by linarith
      show "1 / x \<le> real_of_int m" unfolding m_def by (rule le_of_int_ceiling)
      show "real_of_int m - 1 < 1 / x" unfolding m_def by linarith
    qed
    define k where "k = bitlen (m - 1)"
    have pos: "0 < m - 1" using m(1) by simp
    from bitlen_bounds [OF pos] have lo: "2 ^ nat (k - 1) \<le> m - 1" and hi: "m - 1 < 2 ^ nat k"
      by (simp_all add: k_def)
    have k1: "1 \<le> k"
      using pos bitlen_eq_zero_iff [of "m - 1"] bitlen_nonneg [of "m - 1"]
      by (simp add: k_def)
    have e: "float_exponent x = - k"
      using False by (simp add: float_exponent_def m_def k_def)
    have "m \<le> 2 ^ nat k" using hi by simp
    then have "real_of_int m \<le> real_of_int (2 ^ nat k)"
      by (simp only: of_int_le_iff)
    then have "real_of_int m \<le> (2::real) ^ nat k" by simp
    with m(2) have "1 / x \<le> (2::real) ^ nat k" by linarith
    then have p1: "1 / 2 ^ nat k \<le> x"
      using assms by (simp add: field_simps)
    have "real_of_int (2 ^ nat (k - 1)) \<le> real_of_int (m - 1)"
      using lo by (simp only: of_int_le_iff)
    then have "(2::real) ^ nat (k - 1) \<le> real_of_int m - 1" by simp
    with m(3) have "(2::real) ^ nat (k - 1) < 1 / x" by linarith
    then have p2: "x < 1 / 2 ^ nat (k - 1)"
      using assms by (simp add: field_simps)
    have "2 powi (- k) = 1 / (2::real) ^ nat k"
      using k1 by (simp add: power_int_def field_simps)
    moreover have "2 powi (- k + 1) = 1 / (2::real) ^ nat (k - 1)"
    proof (cases "k = 1")
      case True
      then show ?thesis by simp
    next
      case False
      with k1 have "- k + 1 < 0" by simp
      moreover have "nat (- (- k + 1)) = nat (k - 1)" by simp
      ultimately show ?thesis by (simp add: power_int_def field_simps)
    qed
    ultimately show ?thesis using p1 p2 by (simp add: e)
  qed
  then show "2 powi float_exponent x \<le> x" and "x < 2 powi (float_exponent x + 1)"
    by simp_all
qed

lemma float_exponent_mono:
  assumes "0 < x" and "x \<le> y"
  shows "float_exponent x \<le> float_exponent y"
proof (rule ccontr)
  assume "\<not> float_exponent x \<le> float_exponent y"
  then have "float_exponent y + 1 \<le> float_exponent x" by simp
  then have "(2::real) powi (float_exponent y + 1) \<le> 2 powi float_exponent x"
    by (rule power_int_increasing) simp
  also have "\<dots> \<le> x" using assms(1) by (rule float_exponent_bounds)
  also have "\<dots> \<le> y" by (rule assms(2))
  also have "\<dots> < 2 powi (float_exponent y + 1)"
    using assms by (intro float_exponent_bounds) simp
  finally show False by simp
qed

lemma round_even_bounds: "\<lfloor>r\<rfloor> \<le> round_even r" "round_even r \<le> \<lfloor>r\<rfloor> + 1"
  by (simp_all add: round_even_def Let_def)

lemma round_even_of_int: "round_even (of_int n) = n"
  by (simp add: round_even_def Let_def)

lemma round_even_mono:
  assumes "r \<le> r'"
  shows "round_even r \<le> round_even r'"
proof (cases "\<lfloor>r\<rfloor> = \<lfloor>r'\<rfloor>")
  case True
  with assms show ?thesis
    by (auto simp: round_even_def Let_def)
next
  case False
  with assms have "\<lfloor>r\<rfloor> + 1 \<le> \<lfloor>r'\<rfloor>"
    using floor_mono [OF assms] by simp
  with round_even_bounds(2) [of r] round_even_bounds(1) [of r'] show ?thesis
    by linarith
qed

lemma round_even_ge: "of_int n \<le> r \<Longrightarrow> n \<le> round_even r"
  using round_even_mono [of "of_int n" r] by (simp add: round_even_of_int)

lemma round_even_le: "r \<le> of_int n \<Longrightarrow> round_even r \<le> n"
  using round_even_mono [of r "of_int n"] by (simp add: round_even_of_int)

lemma round_double_pos_eq:
  assumes "0 < x"
  shows "round_double x =
    of_int (round_even (x / 2 powi (float_exponent x - 52))) * 2 powi (float_exponent x - 52)"
  using assms by (simp add: round_double_def Let_def)

lemma power_int_split: "(2::real) powi e = 2 ^ 52 * 2 powi (e - 52)"
proof -
  have "(2::real) powi e = 2 powi (52 + (e - 52))" by simp
  also have "\<dots> = 2 powi 52 * 2 powi (e - 52)"
    by (rule power_int_add) simp
  also have "(2::real) powi 52 = 2 ^ 52" by (simp add: power_int_def)
  finally show ?thesis .
qed

lemma round_double_bounds:
  assumes "0 < x"
  shows "2 powi float_exponent x \<le> round_double x"
    and "round_double x \<le> 2 powi (float_exponent x + 1)"
proof -
  let ?e = "float_exponent x"
  define u :: real where "u = 2 powi (?e - 52)"
  have u: "0 < u" by (simp add: u_def)
  have pe: "2 powi ?e = 2 ^ 52 * u"
    unfolding u_def by (rule power_int_split)
  have "(2::real) powi (?e + 1) = 2 powi ?e * 2"
    by (rule power_int_add_1) simp
  then have pe1: "2 powi (?e + 1) = 2 ^ 53 * u"
    unfolding pe by simp
  have lo: "2 ^ 52 * u \<le> x" and hi: "x < 2 ^ 53 * u"
    using float_exponent_bounds [OF assms] unfolding pe pe1 by blast+
  have rd: "round_double x = of_int (round_even (x / u)) * u"
    unfolding u_def using assms by (rule round_double_pos_eq)
  have "real_of_int (2 ^ 52) \<le> x / u" using lo u by (simp add: field_simps)
  then have "2 ^ 52 \<le> round_even (x / u)" by (rule round_even_ge)
  then have "real_of_int (2 ^ 52) \<le> real_of_int (round_even (x / u))"
    by (simp only: of_int_le_iff)
  then have "2 ^ 52 * u \<le> of_int (round_even (x / u)) * u"
    using u by simp
  then show "2 powi ?e \<le> round_double x"
    unfolding rd pe .
  have "x / u \<le> real_of_int (2 ^ 53)" using hi u by (simp add: field_simps)
  then have "round_even (x / u) \<le> 2 ^ 53" by (rule round_even_le)
  then have "real_of_int (round_even (x / u)) \<le> real_of_int (2 ^ 53)"
    by (simp only: of_int_le_iff)
  then have "of_int (round_even (x / u)) * u \<le> 2 ^ 53 * u"
    using u by simp
  then show "round_double x \<le> 2 powi (?e + 1)"
    unfolding rd pe1 .
qed

lemma round_double_mono:
  assumes "0 < x" and "x \<le> y"
  shows "round_double x \<le> round_double y"
proof (cases "float_exponent x = float_exponent y")
  case True
  define u :: real where "u = 2 powi (float_exponent y - 52)"
  have u: "0 < u" by (simp add: u_def)
  from assms have y: "0 < y" by simp
  have "x / u \<le> y / u" using assms(2) u by (simp add: divide_right_mono)
  then have "round_even (x / u) \<le> round_even (y / u)" by (rule round_even_mono)
  then have "real_of_int (round_even (x / u)) * u \<le> real_of_int (round_even (y / u)) * u"
    using u by simp
  then show ?thesis
    using assms(1) y by (simp add: round_double_pos_eq True u_def)
next
  case False
  with float_exponent_mono [OF assms] have "float_exponent x + 1 \<le> float_exponent y"
    by simp
  then have "(2::real) powi (float_exponent x + 1) \<le> 2 powi float_exponent y"
    by (rule power_int_increasing) simp
  moreover have "round_double x \<le> 2 powi (float_exponent x + 1)"
    using assms(1) by (rule round_double_bounds)
  moreover have "2 powi float_exponent y \<le> round_double y"
    using assms by (intro round_double_bounds) simp
  ultimately show ?thesis by linarith
qed

lemma round_double_one: "round_double 1 = 1"
  by code_simp

text \<open>
  Sample values, as Python prints them with \<^verbatim>\<open>float.as_integer_ratio\<close>: the nearest
  numbers to 1/10 and 7/3, and two ties, the first rounded down and the second up to the
  even significand.
\<close>

lemma round_double_samples:
  "round_double (1 / 10) = 3602879701896397 / 36028797018963968"
  "round_double (7 / 3) = 5254199565265579 / 2251799813685248"
  "round_double 9007199254740993 = 9007199254740992"
  "round_double 9007199254740995 = 9007199254740996"
  by code_simp+

lemma round_double_pos:
  assumes "0 < x"
  shows "0 < round_double x"
proof -
  have "(0::real) < 2 powi float_exponent x" by simp
  also have "\<dots> \<le> round_double x" using assms by (rule round_double_bounds)
  finally show ?thesis .
qed

lemma fadd_one_ge:
  assumes "0 \<le> d"
  shows "1 \<le> fadd 1 d"
proof -
  have "round_double 1 \<le> round_double (1 + d)"
    using assms by (intro round_double_mono) simp_all
  then show ?thesis by (simp add: fadd_def round_double_one)
qed

lemma fdiv_one_range:
  assumes "1 \<le> s"
  shows "0 < fdiv 1 s" and "fdiv 1 s \<le> 1"
proof -
  from assms have pos: "0 < 1 / s" and le: "1 / s \<le> 1" by simp_all
  from pos show "0 < fdiv 1 s" unfolding fdiv_def by (rule round_double_pos)
  have "round_double (1 / s) \<le> round_double 1"
    using pos le by (rule round_double_mono)
  then show "fdiv 1 s \<le> 1" by (simp add: fdiv_def round_double_one)
qed

lemma relevance_nonneg_distance:
  assumes "0 \<le> d"
  shows "distance_to_relevance d = fdiv 1 (fadd 1 d)"
proof -
  from fadd_one_ge [OF assms] have s: "1 \<le> fadd 1 d" .
  with fdiv_one_range [OF s] show ?thesis
    by (simp add: distance_to_relevance_def Let_def)
qed

lemma relevance_antimono:
  assumes "0 \<le> d1" and "d1 \<le> d2"
  shows "distance_to_relevance d2 \<le> distance_to_relevance d1"
proof -
  from assms have d2: "0 \<le> d2" by simp
  have s1: "1 \<le> fadd 1 d1" using assms(1) by (rule fadd_one_ge)
  have "round_double (1 + d1) \<le> round_double (1 + d2)"
    using assms by (intro round_double_mono) simp_all
  then have s12: "fadd 1 d1 \<le> fadd 1 d2" by (simp add: fadd_def)
  with s1 have "0 < 1 / fadd 1 d2" and "1 / fadd 1 d2 \<le> 1 / fadd 1 d1"
    by (simp_all add: frac_le)
  then have "round_double (1 / fadd 1 d2) \<le> round_double (1 / fadd 1 d1)"
    by (rule round_double_mono)
  then show ?thesis
    by (simp add: relevance_nonneg_distance [OF assms(1)] relevance_nonneg_distance [OF d2]
        fdiv_def)
qed

text \<open>
  C9 (as amended). For a distance \<open>d \<ge> 0\<close> the relevance is
  \<^verbatim>\<open>max(0.0, min(1.0, 1.0 / (1.0 + d)))\<close> in floating-point arithmetic; it is 1 at
  distance 0, lies between 0 and 1, and does not increase with the distance. It is not
  strictly decreasing: distances that the sum \<^verbatim>\<open>1.0 + d\<close> rounds to one number have
  one relevance.
\<close>

theorem relevance_monotone:
  "distance_to_relevance 0 = 1
   \<and> (\<forall>d. 0 \<le> d \<longrightarrow>
         distance_to_relevance d = max 0 (min 1 (fdiv 1 (fadd 1 d)))
       \<and> 0 \<le> distance_to_relevance d \<and> distance_to_relevance d \<le> 1)
   \<and> (\<forall>d1 d2. 0 \<le> d1 \<and> d1 \<le> d2 \<longrightarrow>
         distance_to_relevance d2 \<le> distance_to_relevance d1)"
proof (intro conjI allI impI)
  show "distance_to_relevance 0 = 1"
    by (simp add: relevance_nonneg_distance fadd_def fdiv_def round_double_one)
next
  fix d :: real
  assume d: "0 \<le> d"
  note range = fdiv_one_range [OF fadd_one_ge [OF d]]
  from range show "distance_to_relevance d = max 0 (min 1 (fdiv 1 (fadd 1 d)))"
    by (simp add: relevance_nonneg_distance [OF d])
  from range show "0 \<le> distance_to_relevance d"
    by (simp add: relevance_nonneg_distance [OF d])
  from range show "distance_to_relevance d \<le> 1"
    by (simp add: relevance_nonneg_distance [OF d])
next
  fix d1 d2 :: real
  assume "0 \<le> d1 \<and> d1 \<le> d2"
  then show "distance_to_relevance d2 \<le> distance_to_relevance d1"
    by (blast intro: relevance_antimono)
qed

theorem relevance_monotone_witness:
  "distance_to_relevance 0 = 1
   \<and> distance_to_relevance 1 = 1 / 2
   \<and> distance_to_relevance 3 = 1 / 4
   \<and> distance_to_relevance 3 \<le> distance_to_relevance 1
   \<and> 0 \<le> distance_to_relevance 3 \<and> distance_to_relevance 3 \<le> 1"
proof -
  note inst = relevance_monotone
  have a: "distance_to_relevance 0 = 1" using inst by blast
  have b: "distance_to_relevance 1 = 1 / 2" by code_simp
  have c: "distance_to_relevance 3 = 1 / 4" by code_simp
  have "(0::real) \<le> 1 \<and> (1::real) \<le> 3" by simp
  with inst have d: "distance_to_relevance 3 \<le> distance_to_relevance 1" by blast
  have "(0::real) \<le> 3" by simp
  with inst have e: "0 \<le> distance_to_relevance 3" and f: "distance_to_relevance 3 \<le> 1"
    by blast+
  show ?thesis by (intro conjI) (rule a, rule b, rule c, rule d, rule e, rule f)
qed

theorem relevance_strict_counterexample:
  "(0::real) \<le> 0 \<and> (0::real) < 1 / 2 ^ 60
   \<and> distance_to_relevance 0 = 1
   \<and> distance_to_relevance (1 / 2 ^ 60) = 1
   \<and> \<not> distance_to_relevance (1 / 2 ^ 60) < distance_to_relevance 0"
proof -
  have a: "distance_to_relevance 0 = 1" by code_simp
  have b: "distance_to_relevance (1 / 2 ^ 60) = 1" by code_simp
  have c: "(0::real) \<le> 0" and d: "(0::real) < 1 / 2 ^ 60" by simp_all
  have e: "\<not> distance_to_relevance (1 / 2 ^ 60) < distance_to_relevance 0"
    unfolding a b by simp
  show ?thesis by (intro conjI) (rule c, rule d, rule a, rule b, rule e)
qed

section \<open>Entries and initialisation\<close>

text \<open>
  Only a service whose index has been initialised holds entries: an upsert on a service
  without index or embeddings client returns at once.
\<close>

lemma upsert_keeps_index:
  "faiss_index s \<noteq> None \<Longrightarrow> faiss_index (add_or_update_service s p i en) \<noteq> None"
  "faiss_index s \<noteq> None \<Longrightarrow> faiss_index (add_or_update_agent s p c en) \<noteq> None"
  by (auto simp: add_or_update_service_def add_or_update_agent_def assign_id_def
      embed_and_add_def Let_def save_data_fields split: option.splits sum.splits)

lemma upsert_uninitialised:
  "faiss_index s = None \<Longrightarrow> add_or_update_service s p i en = s"
  "faiss_index s = None \<Longrightarrow> add_or_update_agent s p c en = s"
  by (simp_all add: add_or_update_service_def add_or_update_agent_def split: option.splits)

lemma remove_keeps_index: "faiss_index (snd (remove_service s p)) = faiss_index s"
  by (cases "map_of (metadata_store s) p = None")
    (simp_all add: remove_service_def remove_body_absent remove_body_present save_data_fields)

lemma remove_keeps_empty:
  "metadata_store s = [] \<Longrightarrow> metadata_store (snd (remove_service s p)) = []"
  by (simp add: remove_service_def remove_body_absent)

lemma reachable_populated_initialised:
  "reachable s \<Longrightarrow> faiss_index s = None \<Longrightarrow> metadata_store s = []"
proof (induction rule: reachable.induct)
  case (empty s)
  then show ?case by simp
next
  case (step s op)
  show ?case
  proof (cases "faiss_index s = None")
    case True
    with step.IH have "metadata_store s = []" by simp
    with True show ?thesis
      by (cases op) (simp_all add: upsert_uninitialised removes_agree remove_keeps_empty)
  next
    case False
    then have "faiss_index (apply_operation s op) \<noteq> None"
      by (cases op) (simp_all add: upsert_keeps_index removes_agree remove_keeps_index)
    with step.prems show ?thesis by simp
  qed
next
  case (client s em)
  then show ?case by simp
qed

end
